theory Spec2Isabelle
  imports Complex_Main "HOL-Library.Multiset"
begin

section \<open>Numbers and vectors\<close>

text \<open>
  A JavaScript \<open>number\<close> is an IEEE 754 binary64 value: a finite number, one of the two
  infinities, or NaN. \<open>Num r\<close> is the finite number of value \<open>r\<close>; the numbers the arithmetic
  returns are representable, and every operation rounds the exact result to the nearest
  representable number, ties to the even significand, overflowing to an infinity and
  underflowing gradually to zero.

  The two zeros are the one value \<open>Num 0\<close>. The sign of a zero shows in \<open>Object.is\<close> and in
  a division by that zero; \<open>===\<close>, \<open>>\<close>, the comparator of \<open>sort\<close>, \<open>JSON.stringify\<close> and the
  arithmetic of \<open>cosineSimilarity\<close> (which divides only after \<open>denominator === 0\<close> has
  failed) do not tell them apart.
\<close>

datatype number = Num real | PosInf | NegInf | NaN

text \<open>
  \<open>pow2 e\<close> is \<open>2\<close> to the (possibly negative) power \<open>e\<close>; \<open>roundEven\<close> rounds a real to the
  nearest integer, a tie to the even one. \<open>round64\<close> rounds a real to binary64: the
  significand has 53 bits, the exponent of a normal number lies between \<open>-1022\<close> and
  \<open>1023\<close>, below \<open>2^-1022\<close> the numbers are the multiples of \<open>2^-1074\<close>, and a result that
  rounds to \<open>2^1024\<close> or beyond is an infinity.
\<close>

definition pow2 :: "int \<Rightarrow> real" where
  "pow2 e = (if 0 \<le> e then 2 ^ nat e else 1 / 2 ^ nat (- e))"

definition roundEven :: "real \<Rightarrow> int" where
  "roundEven q =
     (let n = \<lfloor>q\<rfloor>
      in if q - of_int n < 1 / 2 then n
         else if 1 / 2 < q - of_int n then n + 1
         else if even n then n else n + 1)"

definition expo :: "real \<Rightarrow> int" where
  "expo x = max \<lfloor>log 2 \<bar>x\<bar>\<rfloor> (- 1022)"

definition ulp :: "real \<Rightarrow> real" where
  "ulp x = pow2 (expo x - 52)"

definition round64 :: "real \<Rightarrow> number" where
  "round64 x =
     (if x = 0 then Num 0
      else (let r = of_int (roundEven (x / ulp x)) * ulp x
            in if pow2 1024 \<le> \<bar>r\<bar> then (if 0 < x then PosInf else NegInf) else Num r))"

text \<open>
  The operations of the source on numbers: unary minus, \<open>+\<close>, \<open>-\<close>, \<open>*\<close>, \<open>/\<close>, \<open>Math.sqrt\<close>,
  \<open>>\<close>, and the test \<open>0 < v\<close> that \<open>sort\<close> makes of a comparator's result (a NaN result is
  read as \<open>0\<close>). \<open>Math.sqrt\<close> is the correctly rounded square root of IEEE 754, which is
  what the engines compute. In \<open>fdiv\<close> a zero divisor is read as \<open>+0\<close>.
\<close>

fun fneg :: "number \<Rightarrow> number" where
  "fneg (Num x) = Num (- x)"
| "fneg PosInf = NegInf"
| "fneg NegInf = PosInf"
| "fneg NaN = NaN"

fun fadd :: "number \<Rightarrow> number \<Rightarrow> number" where
  "fadd (Num x) (Num y) = round64 (x + y)"
| "fadd NaN _ = NaN"
| "fadd _ NaN = NaN"
| "fadd PosInf NegInf = NaN"
| "fadd NegInf PosInf = NaN"
| "fadd PosInf _ = PosInf"
| "fadd _ PosInf = PosInf"
| "fadd NegInf _ = NegInf"
| "fadd _ NegInf = NegInf"

definition fsub :: "number \<Rightarrow> number \<Rightarrow> number" where
  "fsub a b = fadd a (fneg b)"

definition scaleInf :: "number \<Rightarrow> real \<Rightarrow> number" where
  "scaleInf i y = (if y = 0 then NaN else if 0 < y then i else fneg i)"

fun fmul :: "number \<Rightarrow> number \<Rightarrow> number" where
  "fmul (Num x) (Num y) = round64 (x * y)"
| "fmul NaN _ = NaN"
| "fmul _ NaN = NaN"
| "fmul (Num x) i = scaleInf i x"
| "fmul i (Num y) = scaleInf i y"
| "fmul PosInf PosInf = PosInf"
| "fmul NegInf NegInf = PosInf"
| "fmul PosInf NegInf = NegInf"
| "fmul NegInf PosInf = NegInf"

fun fdiv :: "number \<Rightarrow> number \<Rightarrow> number" where
  "fdiv (Num x) (Num y) =
     (if y = 0 then (if x = 0 then NaN else if 0 < x then PosInf else NegInf)
      else round64 (x / y))"
| "fdiv NaN _ = NaN"
| "fdiv _ NaN = NaN"
| "fdiv (Num x) _ = Num 0"
| "fdiv i (Num y) = (if 0 \<le> y then i else fneg i)"
| "fdiv _ _ = NaN"

fun fsqrt :: "number \<Rightarrow> number" where
  "fsqrt (Num x) = (if x < 0 then NaN else round64 (sqrt x))"
| "fsqrt PosInf = PosInf"
| "fsqrt _ = NaN"

fun greater :: "number \<Rightarrow> number \<Rightarrow> bool" where
  "greater (Num x) (Num y) = (y < x)"
| "greater NaN _ = False"
| "greater _ NaN = False"
| "greater PosInf PosInf = False"
| "greater PosInf _ = True"
| "greater NegInf _ = False"
| "greater _ PosInf = False"
| "greater _ NegInf = True"

fun positive :: "number \<Rightarrow> bool" where
  "positive (Num x) = (0 < x)"
| "positive PosInf = True"
| "positive _ = False"

subsection \<open>\<open>VectorDatabase.cosineSimilarity\<close>\<close>

text \<open>
  The loop of \<open>cosineSimilarity\<close> runs over the indices of \<open>vec1\<close>, after the check that both
  arrays have the same length; it is the recursion over both lists at once, with the three
  accumulators \<open>dotProduct\<close>, \<open>norm1\<close>, \<open>norm2\<close>.
\<close>

fun cosineLoop :: "number list \<Rightarrow> number list \<Rightarrow> number \<times> number \<times> number \<Rightarrow> number \<times> number \<times> number" where
  "cosineLoop (x # xs) (y # ys) (dotProduct, norm1, norm2) =
     cosineLoop xs ys
       (fadd dotProduct (fmul x y), fadd norm1 (fmul x x), fadd norm2 (fmul y y))"
| "cosineLoop _ _ acc = acc"

definition cosineSimilarity :: "number list \<Rightarrow> number list \<Rightarrow> number" where
  "cosineSimilarity vec1 vec2 =
     (if length vec1 \<noteq> length vec2 then Num 0
      else (case cosineLoop vec1 vec2 (Num 0, Num 0, Num 0) of
              (dotProduct, norm1, norm2) \<Rightarrow>
                (let denominator = fmul (fsqrt norm1) (fsqrt norm2)
                 in if denominator = Num 0 then Num 0 else fdiv dotProduct denominator)))"

subsection \<open>Notions for stating properties of the arithmetic\<close>

text \<open>
  The words of the specification, over the reals: the dot product and the Euclidean norm
  of vectors of reals (\<open>map Num xs\<close> is the vector of finite numbers with the values \<open>xs\<close>).
  \<open>isFinite\<close> is \<open>Number.isFinite\<close>, and \<open>realOf\<close> the value of a finite number.
\<close>

definition dot :: "real list \<Rightarrow> real list \<Rightarrow> real" where
  "dot a b = sum_list (map2 (*) a b)"

definition vnorm :: "real list \<Rightarrow> real" where
  "vnorm a = sqrt (dot a a)"

fun isFinite :: "number \<Rightarrow> bool" where
  "isFinite (Num x) = True"
| "isFinite _ = False"

fun realOf :: "number \<Rightarrow> real" where
  "realOf (Num x) = x"
| "realOf _ = 0"

text \<open>
  For the proofs: the sum of the absolute values of the products; one accumulator of the
  loop on its own; half of the smallest positive number (the most that rounding changes a
  number near zero); the multiples of the smallest positive number.
\<close>

definition adot :: "real list \<Rightarrow> real list \<Rightarrow> real" where
  "adot a b = sum_list (map2 (\<lambda>x y. \<bar>x * y\<bar>) a b)"

fun dotFrom :: "number \<Rightarrow> number list \<Rightarrow> number list \<Rightarrow> number" where
  "dotFrom acc (x # xs) (y # ys) = dotFrom (fadd acc (fmul x y)) xs ys"
| "dotFrom acc _ _ = acc"

definition tiny :: real where
  "tiny = 1 / 2 ^ 1075"

definition onGrid :: "real \<Rightarrow> bool" where
  "onGrid r = (\<exists>m::int. r = of_int m / 2 ^ 1074)"

section \<open>Shared data: messages, errors, storage\<close>

text \<open>
  A thrown value is an \<open>Error\<close> object with its message, or some other value (\<open>Thrown\<close>).
  A \<open>Date\<close> is its number of milliseconds since the epoch. Several interfaces of the
  source have fields of the same name (\<open>id\<close>, \<open>content\<close>, \<open>timestamp\<close>); here each field
  carries the initial of its record: \<open>m_\<close> for \<open>Message\<close>, \<open>s_\<close> for \<open>Session\<close>, \<open>d_\<close> for
  \<open>VectorDocument\<close> (whose \<open>metadata\<close> is flattened), \<open>r_\<close> for \<open>SearchResult\<close>, \<open>q_\<close> for
  \<open>QueuedMessage\<close>.
\<close>

datatype error = Error string | Thrown

type_synonym date = nat

datatype role = User | Assistant

record Message =
  m_id :: string
  m_role :: role
  m_content :: string
  m_timestamp :: date
  m_audioUri :: "string option"

record Session =
  s_id :: string
  s_title :: string
  s_messages :: "Message list"
  s_createdAt :: date
  s_updatedAt :: date

record VectorDocument =
  d_id :: string
  d_sessionId :: string
  d_messageId :: string
  d_content :: string
  d_embedding :: "number list"
  d_timestamp :: date
  d_role :: role
  d_sessionTitle :: string

record SearchResult =
  r_sessionId :: string
  r_messageId :: string
  r_content :: string
  r_score :: number
  r_sessionTitle :: string
  r_timestamp :: date

text \<open>
  A JavaScript \<open>Map\<close> iterates in insertion order: it is an association list with distinct
  keys. \<open>set\<close> on a key that is present replaces the value in place; on a new key it appends.
\<close>

definition Map_get :: "('k \<times> 'v) list \<Rightarrow> 'k \<Rightarrow> 'v option" where
  "Map_get m k = map_of m k"

fun Map_set :: "('k \<times> 'v) list \<Rightarrow> 'k \<Rightarrow> 'v \<Rightarrow> ('k \<times> 'v) list" where
  "Map_set [] k v = [(k, v)]"
| "Map_set ((k', v') # m) k v = (if k' = k then (k, v) # m else (k', v') # Map_set m k v)"

definition Map_values :: "('k \<times> 'v) list \<Rightarrow> 'v list" where
  "Map_values m = map snd m"

definition newMap :: "('k \<times> 'v) list \<Rightarrow> ('k \<times> 'v) list" where
  "newMap entries = foldl (\<lambda>m (k, v). Map_set m k v) [] entries"

text \<open>
  \<open>AsyncStorage\<close>, restricted to the keys this code reads. The JSON text under a key is
  modelled by the value it decodes to: \<open>Missing\<close> when \<open>getItem\<close> gives \<open>null\<close> (or the empty
  text), \<open>Text v\<close> when \<open>JSON.parse\<close> gives \<open>v\<close>, \<open>Garbled\<close> when \<open>JSON.parse\<close> throws. For an
  object, \<open>v\<close> lists the members in the order of the text. \<open>getFails key\<close> and
  \<open>setFails key\<close> say whether a read or a write of the key is rejected, and with which
  error.
\<close>

datatype 'a item = Missing | Text 'a | Garbled

record AsyncStorage =
  vector_db :: "(string \<times> VectorDocument) list item"
  embedding_cache :: "(string \<times> number list) list item"
  sync_status :: "date item"
  getFails :: "string \<Rightarrow> error option"
  setFails :: "string \<Rightarrow> error option"

definition VECTOR_DB_KEY :: string where
  "VECTOR_DB_KEY = ''@vector_db''"

definition EMBEDDING_CACHE_KEY :: string where
  "EMBEDDING_CACHE_KEY = ''@embedding_cache''"



text \<open>
  An object lists its keys (to \<open>JSON.stringify\<close> and to \<open>Object.entries\<close>) with the array
  indices first, in ascending numeric order, then the other strings in the order of their
  insertion. An array index is the decimal text, without a leading zero, of an
  integer from \<open>0\<close> to \<open>2^32 - 2\<close>. An assignment \<open>object[key] = value\<close> with the key
  \<open>__proto__\<close> and an object or array as value sets the prototype of the object and adds no
  member. \<open>JSON.stringify\<close> writes a number that is not finite as \<open>null\<close>, which the
  arithmetic reads as \<open>0\<close> when the text has been parsed again.
\<close>

definition isDigit :: "char \<Rightarrow> bool" where
  "isDigit c = (48 \<le> (of_char c :: nat) \<and> (of_char c :: nat) \<le> 57)"

definition indexValue :: "string \<Rightarrow> nat" where
  "indexValue key = foldl (\<lambda>n c. 10 * n + (of_char c - 48)) 0 key"

definition isArrayIndex :: "string \<Rightarrow> bool" where
  "isArrayIndex key =
     (key \<noteq> [] \<and> list_all isDigit key \<and> (hd key \<noteq> CHR ''0'' \<or> key = ''0'') \<and>
      indexValue key \<le> 4294967294)"

definition objectEntries :: "(string \<times> 'v) list \<Rightarrow> (string \<times> 'v) list" where
  "objectEntries members =
     sort_key (\<lambda>p. indexValue (fst p)) (filter (\<lambda>p. isArrayIndex (fst p)) members) @
     filter (\<lambda>p. \<not> isArrayIndex (fst p)) members"

definition jsonNumber :: "number \<Rightarrow> number" where
  "jsonNumber x = (if isFinite x then x else Num 0)"

definition jsonDocument :: "VectorDocument \<Rightarrow> VectorDocument" where
  "jsonDocument doc = doc\<lparr>d_embedding := map jsonNumber (d_embedding doc)\<rparr>"

definition stringify :: "('v \<Rightarrow> 'v) \<Rightarrow> (string \<times> 'v) list \<Rightarrow> (string \<times> 'v) list" where
  "stringify jsonValue m =
     map (\<lambda>p. (fst p, jsonValue (snd p)))
       (objectEntries (filter (\<lambda>p. fst p \<noteq> ''__proto__'') m))"

section \<open>The vector database\<close>

text \<open>
  The static fields of \<open>VectorDatabase\<close> (\<open>documents\<close>, \<open>embeddingCache\<close>, \<open>initialized\<close>)
  together with what its methods reach outside the class: the module variable
  \<open>openAIInstance\<close>, \<open>AsyncStorage\<close>, and the list of texts \<open>createEmbedding\<close> has been called
  with (\<open>embedCalls\<close>, the calls the embedding provider sees). The provider is the
  \<open>createEmbedding\<close> of the instance: a function from the text to the embedding or to the
  error it throws. The repository's own \<open>createEmbedding\<close> is a stand-in that never throws;
  every theorem below holds for any provider.

  Each method is embedded as it runs from call to completion; what happens when two calls
  interleave at their \<open>await\<close>s is outside this part of the model.
\<close>

record VectorDatabase =
  documents :: "(string \<times> VectorDocument) list"
  embeddingCache :: "(string \<times> number list) list"
  initialized :: bool
  openAIInstance :: "(string \<Rightarrow> error + number list) option"
  storage :: AsyncStorage
  embedCalls :: "string list"

definition notInitialized :: error where
  "notInitialized = Error ''OpenAI not initialized. Please set your API key in settings.''"

definition getOpenAI :: "VectorDatabase \<Rightarrow> error + (string \<Rightarrow> error + number list)" where
  "getOpenAI w =
     (case openAIInstance w of
        None \<Rightarrow> Inl notInitialized
      | Some openAI \<Rightarrow> Inr openAI)"

text \<open>
  \<open>initialize\<close>: one \<open>try\<close> block around both loads; whatever is thrown, the \<open>catch\<close> sets
  \<open>initialized\<close>. A failure of the second load leaves the documents of the first in place.
  \<open>new Map(Object.entries(parsed))\<close> takes the members in the order the parsed object
  lists them; of two members with the same key the later value stands at the earlier place.
\<close>

definition loadCache :: "VectorDatabase \<Rightarrow> VectorDatabase" where
  "loadCache w =
     (case getFails (storage w) EMBEDDING_CACHE_KEY of
        Some e \<Rightarrow> w\<lparr>initialized := True\<rparr>
      | None \<Rightarrow>
          (case embedding_cache (storage w) of
             Missing \<Rightarrow> w\<lparr>initialized := True\<rparr>
           | Garbled \<Rightarrow> w\<lparr>initialized := True\<rparr>
           | Text parsed \<Rightarrow> w\<lparr>embeddingCache := newMap (objectEntries parsed), initialized := True\<rparr>))"

definition initialize :: "VectorDatabase \<Rightarrow> VectorDatabase" where
  "initialize w =
     (if initialized w then w
      else (case getFails (storage w) VECTOR_DB_KEY of
              Some e \<Rightarrow> w\<lparr>initialized := True\<rparr>
            | None \<Rightarrow>
                (case vector_db (storage w) of
                   Missing \<Rightarrow> loadCache w
                 | Garbled \<Rightarrow> w\<lparr>initialized := True\<rparr>
                 | Text parsed \<Rightarrow> loadCache (w\<lparr>documents := newMap (objectEntries parsed)\<rparr>))))"

text \<open>
  \<open>saveToStorage\<close>: one \<open>try\<close> block; the write of the documents comes first, and when it
  is rejected the \<open>catch\<close> is reached before the cache is pruned or written.
  \<open>entries.slice(-500)\<close> keeps the last 500 entries. The text written for a map is the
  text of the object filled from it (\<open>stringify\<close>).
\<close>

definition sliceLast :: "nat \<Rightarrow> 'a list \<Rightarrow> 'a list" where
  "sliceLast n xs = drop (length xs - n) xs"

definition saveToStorage :: "VectorDatabase \<Rightarrow> VectorDatabase" where
  "saveToStorage w =
     (case setFails (storage w) VECTOR_DB_KEY of
        Some e \<Rightarrow> w
      | None \<Rightarrow>
          (let w1 = w\<lparr>storage := (storage w)\<lparr>vector_db := Text (stringify jsonDocument (documents w))\<rparr>\<rparr>;
               w2 = (if length (embeddingCache w1) > 1000
                     then w1\<lparr>embeddingCache := sliceLast 500 (embeddingCache w1)\<rparr>
                     else w1)
           in (case setFails (storage w2) EMBEDDING_CACHE_KEY of
                 Some e \<Rightarrow> w2
               | None \<Rightarrow>
                   w2\<lparr>storage := (storage w2)\<lparr>embedding_cache :=
                        Text (stringify (map jsonNumber) (embeddingCache w2))\<rparr>\<rparr>)))"

text \<open>\<open>indexSession\<close>: the body of the loop over the messages, then the loop, then the method.\<close>

definition docIdOf :: "Session \<Rightarrow> Message \<Rightarrow> string" where
  "docIdOf session message = s_id session @ ''_'' @ m_id message"

definition makeDoc :: "Session \<Rightarrow> Message \<Rightarrow> number list \<Rightarrow> VectorDocument" where
  "makeDoc session message embedding =
     \<lparr>d_id = docIdOf session message,
      d_sessionId = s_id session,
      d_messageId = m_id message,
      d_content = m_content message,
      d_embedding = embedding,
      d_timestamp = m_timestamp message,
      d_role = m_role message,
      d_sessionTitle = s_title session\<rparr>"

definition unchangedDoc :: "VectorDatabase \<Rightarrow> Session \<Rightarrow> Message \<Rightarrow> bool" where
  "unchangedDoc w session message =
     (case Map_get (documents w) (docIdOf session message) of
        None \<Rightarrow> False
      | Some existingDoc \<Rightarrow> d_content existingDoc = m_content message)"

definition indexMessage :: "(string \<Rightarrow> error + number list) \<Rightarrow> Session \<Rightarrow> Message \<Rightarrow> VectorDatabase \<Rightarrow> VectorDatabase" where
  "indexMessage openAI session message w =
     (if unchangedDoc w session message then w
      else (case Map_get (embeddingCache w) (m_content message) of
              Some embedding \<Rightarrow>
                w\<lparr>documents := Map_set (documents w) (docIdOf session message) (makeDoc session message embedding)\<rparr>
            | None \<Rightarrow>
                (let w1 = w\<lparr>embedCalls := embedCalls w @ [m_content message]\<rparr>
                 in (case openAI (m_content message) of
                       Inl e \<Rightarrow> w1
                     | Inr embedding \<Rightarrow>
                         w1\<lparr>embeddingCache := Map_set (embeddingCache w1) (m_content message) embedding,
                            documents := Map_set (documents w1) (docIdOf session message)
                                           (makeDoc session message embedding)\<rparr>))))"

fun indexMessages :: "(string \<Rightarrow> error + number list) \<Rightarrow> Session \<Rightarrow> Message list \<Rightarrow> VectorDatabase \<Rightarrow> VectorDatabase" where
  "indexMessages openAI session [] w = w"
| "indexMessages openAI session (message # rest) w =
     indexMessages openAI session rest (indexMessage openAI session message w)"

definition indexSession :: "Session \<Rightarrow> VectorDatabase \<Rightarrow> (error + unit) \<times> VectorDatabase" where
  "indexSession session w0 =
     (let w = initialize w0
      in (case getOpenAI w of
            Inl e \<Rightarrow> (Inl e, w)
          | Inr openAI \<Rightarrow> (Inr (), saveToStorage (indexMessages openAI session (s_messages session) w))))"

text \<open>
  \<open>Array.prototype.sort\<close> is stable, and for a comparator that is a consistent ordering
  every stable sort returns the same array; it is embedded as the insertion sort that puts
  an element before the first one it does not come after (the first for which the
  comparator's result is not positive; a NaN result is read as \<open>0\<close>). The comparator of
  \<open>search\<close> and \<open>findSimilar\<close> is \<open>b.score - a.score\<close>. When a score is NaN or infinite this
  difference can be NaN and the comparator is not a consistent ordering; ECMAScript then
  leaves the order to the implementation, and the statements below about the order are
  made for finite scores. \<open>slice(0, limit)\<close> counts a negative \<open>limit\<close> from the end.
\<close>

fun insertBy :: "('a \<Rightarrow> 'a \<Rightarrow> number) \<Rightarrow> 'a \<Rightarrow> 'a list \<Rightarrow> 'a list" where
  "insertBy cmp x [] = [x]"
| "insertBy cmp x (y # ys) = (if positive (cmp x y) then y # insertBy cmp x ys else x # y # ys)"

definition sortBy :: "('a \<Rightarrow> 'a \<Rightarrow> number) \<Rightarrow> 'a list \<Rightarrow> 'a list" where
  "sortBy cmp xs = foldr (insertBy cmp) xs []"

definition byScore :: "VectorDocument \<times> number \<Rightarrow> VectorDocument \<times> number \<Rightarrow> number" where
  "byScore a b = fsub (snd b) (snd a)"

definition slice0 :: "int \<Rightarrow> 'a list \<Rightarrow> 'a list" where
  "slice0 limit xs =
     (if limit < 0 then take (nat (int (length xs) + limit)) xs else take (nat limit) xs)"

definition toResult :: "VectorDocument \<times> number \<Rightarrow> SearchResult" where
  "toResult p =
     (case p of (doc, score) \<Rightarrow>
        \<lparr>r_sessionId = d_sessionId doc,
         r_messageId = d_messageId doc,
         r_content = d_content doc,
         r_score = score,
         r_sessionTitle = d_sessionTitle doc,
         r_timestamp = d_timestamp doc\<rparr>)"

definition scoreAll :: "number list \<Rightarrow> VectorDocument list \<Rightarrow> (VectorDocument \<times> number) list" where
  "scoreAll queryEmbedding docs = map (\<lambda>doc. (doc, cosineSimilarity queryEmbedding (d_embedding doc))) docs"

definition search :: "string \<Rightarrow> int \<Rightarrow> VectorDatabase \<Rightarrow> (error + SearchResult list) \<times> VectorDatabase" where
  "search query limit w0 =
     (let w = initialize w0
      in if length (documents w) = 0 then (Inr [], w)
         else (case getOpenAI w of
                 Inl e \<Rightarrow> (Inl e, w)
               | Inr openAI \<Rightarrow>
                   (let w1 = w\<lparr>embedCalls := embedCalls w @ [query]\<rparr>
                    in (case openAI query of
                          Inl e \<Rightarrow> (Inr [], w1)
                        | Inr queryEmbedding \<Rightarrow>
                            (Inr (map toResult
                                   (slice0 limit
                                     (sortBy byScore (scoreAll queryEmbedding (Map_values (documents w1)))))),
                             w1)))))"

definition skipped :: "string \<Rightarrow> string option \<Rightarrow> VectorDocument \<Rightarrow> bool" where
  "skipped messageContent excludeSessionId doc =
     ((case excludeSessionId of
         None \<Rightarrow> False
       | Some sid \<Rightarrow> sid \<noteq> [] \<and> d_sessionId doc = sid)
      \<or> d_content doc = messageContent)"

text \<open>The literal \<open>0.7\<close> is the number nearest to seven tenths.\<close>

definition threshold :: number where
  "threshold = Num (3152519739159347 / 2 ^ 52)"

definition similarTo :: "number list \<Rightarrow> string \<Rightarrow> string option \<Rightarrow> VectorDocument list \<Rightarrow> (VectorDocument \<times> number) list" where
  "similarTo embedding messageContent excludeSessionId docs =
     filter (\<lambda>p. greater (snd p) threshold)
       (scoreAll embedding (filter (\<lambda>doc. \<not> skipped messageContent excludeSessionId doc) docs))"

definition findSimilar :: "string \<Rightarrow> string option \<Rightarrow> int \<Rightarrow> VectorDatabase \<Rightarrow> (error + SearchResult list) \<times> VectorDatabase" where
  "findSimilar messageContent excludeSessionId limit w0 =
     (let w = initialize w0
      in (case getOpenAI w of
            Inl e \<Rightarrow> (Inl e, w)
          | Inr openAI \<Rightarrow>
              (let rank = (\<lambda>embedding.
                     map toResult
                       (slice0 limit
                         (sortBy byScore
                           (similarTo embedding messageContent excludeSessionId (Map_values (documents w))))))
               in (case Map_get (embeddingCache w) messageContent of
                     Some embedding \<Rightarrow> (Inr (rank embedding), w)
                   | None \<Rightarrow>
                       (let w1 = w\<lparr>embedCalls := embedCalls w @ [messageContent]\<rparr>
                        in (case openAI messageContent of
                              Inl e \<Rightarrow> (Inr [], w1)
                            | Inr embedding \<Rightarrow> (Inr (rank embedding), w1)))))))"

section \<open>The offline queue\<close>

datatype status = Pending | Syncing | Failed

record QueuedMessage =
  q_id :: string
  q_sessionId :: string
  q_message :: Message
  q_timestamp :: date
  q_retryCount :: nat
  q_status :: status
  q_error :: "string option"


text \<open>
  The queue holds objects that \<open>syncQueue\<close> mutates through a second array
  (\<open>pendingMessages\<close>) while other calls replace \<open>this.queue\<close>: the objects live in a heap,
  and the queue and the running calls hold references.

  JavaScript runs one piece of code at a time, and an \<open>async\<close> method gives up control only
  at an \<open>await\<close>. A call that is suspended at an \<open>await\<close> is an \<open>activation\<close>, recorded with
  what it still has to do:
  \<^item> \<open>AwaitSend queuedMessage rest\<close>: a \<open>syncQueue\<close> waiting for \<open>sendMessage(queuedMessage)\<close>,
    with \<open>rest\<close> the part of \<open>pendingMessages\<close> its loop has not reached;
  \<^item> \<open>AwaitStatusWrite t\<close>: a \<open>syncQueue\<close> past its loop, waiting for the write of the time
    \<open>t\<close> under \<open>SYNC_STATUS_KEY\<close>;
  \<^item> \<open>AwaitQueueWrite thenSync\<close>: a call waiting for \<open>saveQueue\<close> (or \<open>removeItem\<close>); when
    \<open>thenSync\<close> holds, it calls \<open>syncQueue\<close> next (\<open>queueMessage\<close>, \<open>retryFailed\<close>).
  The text \<open>saveQueue\<close> writes under \<open>QUEUE_KEY\<close> is read by \<open>initialize\<close> only, which is not
  part of this model; the listeners of \<open>notifyListeners\<close> receive a status and change nothing
  here.
\<close>

type_synonym ref = nat

datatype activation =
    AwaitSend ref "ref list"
  | AwaitStatusWrite date
  | AwaitQueueWrite bool

record OfflineQueueService =
  heap :: "ref \<Rightarrow> QueuedMessage"
  nextRef :: ref
  queue :: "ref list"
  isOnline :: bool
  activations :: "activation list"
  asyncStorage :: AsyncStorage



text \<open>
  \<open>syncQueue\<close>, from its call to its first \<open>await\<close>: the two guards, the marking of the
  pending messages, and the first \<open>sendMessage\<close>.
\<close>

definition markSyncing :: "ref list \<Rightarrow> (ref \<Rightarrow> QueuedMessage) \<Rightarrow> (ref \<Rightarrow> QueuedMessage)" where
  "markSyncing refs h = fold (\<lambda>msg h. h(msg := (h msg)\<lparr>q_status := Syncing\<rparr>)) refs h"

definition syncQueue :: "OfflineQueueService \<Rightarrow> OfflineQueueService" where
  "syncQueue s =
     (if \<not> isOnline s then s
      else (let pendingMessages = filter (\<lambda>q. q_status (heap s q) = Pending) (queue s)
            in (case pendingMessages of
                  [] \<Rightarrow> s
                | queuedMessage # rest \<Rightarrow>
                    s\<lparr>heap := markSyncing pendingMessages (heap s),
                      activations := activations s @ [AwaitSend queuedMessage rest]\<rparr>)))"

text \<open>The \<open>catch\<close> of the loop: what a rejected \<open>sendMessage\<close> does to the message.\<close>

definition errorMessage :: "error \<Rightarrow> string" where
  "errorMessage e = (case e of Error message \<Rightarrow> message | Thrown \<Rightarrow> ''Unknown error'')"

definition onSendRejected :: "error \<Rightarrow> QueuedMessage \<Rightarrow> QueuedMessage" where
  "onSendRejected e queuedMessage =
     (let retryCount = q_retryCount queuedMessage + 1
      in if retryCount \<ge> 3
         then queuedMessage\<lparr>q_retryCount := retryCount, q_status := Failed, q_error := Some (errorMessage e)\<rparr>
         else queuedMessage\<lparr>q_retryCount := retryCount, q_status := Pending\<rparr>)"

definition dropAt :: "nat \<Rightarrow> 'a list \<Rightarrow> 'a list" where
  "dropAt i xs = take i xs @ drop (Suc i) xs"

text \<open>
  \<open>resume i outcome now\<close>: the activation at position \<open>i\<close> goes on, with the outcome of what
  it awaited (\<open>None\<close> when the promise is fulfilled, \<open>Some e\<close> when it is rejected with \<open>e\<close>),
  until its next \<open>await\<close> or its end. \<open>saveQueue\<close> catches a rejected write itself.
\<close>

definition resume :: "nat \<Rightarrow> error option \<Rightarrow> date \<Rightarrow> OfflineQueueService \<Rightarrow> OfflineQueueService" where
  "resume i outcome now s =
     (if length (activations s) \<le> i then s
      else (case activations s ! i of
              AwaitSend queuedMessage rest \<Rightarrow>
                (let s1 = (case outcome of
                             None \<Rightarrow>
                               s\<lparr>queue := filter (\<lambda>q. q_id (heap s q) \<noteq> q_id (heap s queuedMessage)) (queue s)\<rparr>
                           | Some e \<Rightarrow>
                               s\<lparr>heap := (heap s)(queuedMessage := onSendRejected e (heap s queuedMessage))\<rparr>)
                 in (case rest of
                       [] \<Rightarrow> s1\<lparr>activations := (activations s1)[i := AwaitStatusWrite now]\<rparr>
                     | next # rest' \<Rightarrow> s1\<lparr>activations := (activations s1)[i := AwaitSend next rest']\<rparr>))
            | AwaitStatusWrite t \<Rightarrow>
                (case outcome of
                   Some e \<Rightarrow> s\<lparr>activations := dropAt i (activations s)\<rparr>
                 | None \<Rightarrow>
                     s\<lparr>asyncStorage := (asyncStorage s)\<lparr>sync_status := Text t\<rparr>,
                       activations := (activations s)[i := AwaitQueueWrite False]\<rparr>)
            | AwaitQueueWrite thenSync \<Rightarrow>
                (let s1 = s\<lparr>activations := dropAt i (activations s)\<rparr>
                 in if thenSync then syncQueue s1 else s1)))"

text \<open>The other methods, each from its call to its first \<open>await\<close>.\<close>

fun decimal :: "nat \<Rightarrow> string" where
  "decimal n = (if n < 10 then [char_of (48 + n)] else decimal (n div 10) @ [char_of (48 + n mod 10)])"

definition queueMessage :: "string \<Rightarrow> Message \<Rightarrow> date \<Rightarrow> OfflineQueueService \<Rightarrow> OfflineQueueService" where
  "queueMessage sessionId message now s =
     (let queuedMessage =
            \<lparr>q_id = sessionId @ ''_'' @ m_id message @ ''_'' @ decimal now,
             q_sessionId = sessionId,
             q_message = message,
             q_timestamp = now,
             q_retryCount = 0,
             q_status = Pending,
             q_error = None\<rparr>
      in s\<lparr>heap := (heap s)(nextRef s := queuedMessage),
           nextRef := Suc (nextRef s),
           queue := queue s @ [nextRef s],
           activations := activations s @ [AwaitQueueWrite True]\<rparr>)"

definition resetFailed :: "ref list \<Rightarrow> (ref \<Rightarrow> QueuedMessage) \<Rightarrow> (ref \<Rightarrow> QueuedMessage)" where
  "resetFailed refs h =
     fold (\<lambda>msg h. h(msg := (h msg)\<lparr>q_status := Pending, q_retryCount := 0, q_error := None\<rparr>)) refs h"

definition retryFailed :: "OfflineQueueService \<Rightarrow> OfflineQueueService" where
  "retryFailed s =
     (let failedMessages = filter (\<lambda>q. q_status (heap s q) = Failed) (queue s)
      in s\<lparr>heap := resetFailed failedMessages (heap s),
           activations := activations s @ [AwaitQueueWrite True]\<rparr>)"

definition clearQueue :: "OfflineQueueService \<Rightarrow> OfflineQueueService" where
  "clearQueue s = s\<lparr>queue := [], activations := activations s @ [AwaitQueueWrite False]\<rparr>"

definition removeFromQueue :: "string \<Rightarrow> OfflineQueueService \<Rightarrow> OfflineQueueService" where
  "removeFromQueue messageId s =
     s\<lparr>queue := filter (\<lambda>q. q_id (heap s q) \<noteq> messageId) (queue s),
       activations := activations s @ [AwaitQueueWrite False]\<rparr>"

definition netInfoListener :: "bool option \<Rightarrow> OfflineQueueService \<Rightarrow> OfflineQueueService" where
  "netInfoListener isConnected s =
     (let wasOffline = \<not> isOnline s;
          s1 = s\<lparr>isOnline := (case isConnected of None \<Rightarrow> False | Some c \<Rightarrow> c)\<rparr>
      in if wasOffline \<and> isOnline s1 then syncQueue s1 else s1)"

definition setOfflineMode :: "bool \<Rightarrow> OfflineQueueService \<Rightarrow> OfflineQueueService" where
  "setOfflineMode offline s =
     (let s1 = s\<lparr>isOnline := \<not> offline\<rparr>
      in if isOnline s1 then syncQueue s1 else s1)"

definition periodicSync :: "OfflineQueueService \<Rightarrow> OfflineQueueService" where
  "periodicSync s = (if isOnline s then syncQueue s else s)"

text \<open>
  What can happen next: a method is called, a listener or the timer fires, or a suspended
  call goes on. A run is a list of such events.
\<close>

datatype event =
    QueueMessage string Message date
  | SyncQueue
  | Resume nat "error option" date
  | RetryFailed
  | ClearQueue
  | RemoveFromQueue string
  | NetInfo "bool option"
  | SetOfflineMode bool
  | Timer

fun step :: "event \<Rightarrow> OfflineQueueService \<Rightarrow> OfflineQueueService" where
  "step (QueueMessage sessionId message now) s = queueMessage sessionId message now s"
| "step SyncQueue s = syncQueue s"
| "step (Resume i outcome now) s = resume i outcome now s"
| "step RetryFailed s = retryFailed s"
| "step ClearQueue s = clearQueue s"
| "step (RemoveFromQueue messageId) s = removeFromQueue messageId s"
| "step (NetInfo isConnected) s = netInfoListener isConnected s"
| "step (SetOfflineMode offline) s = setOfflineMode offline s"
| "step Timer s = periodicSync s"

fun run :: "event list \<Rightarrow> OfflineQueueService \<Rightarrow> OfflineQueueService" where
  "run [] s = s"
| "run (e # es) s = run es (step e s)"

text \<open>The static fields as the class declares them, over a given storage.\<close>

definition blankMessage :: QueuedMessage where
  "blankMessage =
     \<lparr>q_id = [], q_sessionId = [],
      q_message = \<lparr>m_id = [], m_role = User, m_content = [], m_timestamp = 0, m_audioUri = None\<rparr>,
      q_timestamp = 0, q_retryCount = 0, q_status = Pending, q_error = None\<rparr>"

definition initialService :: "AsyncStorage \<Rightarrow> OfflineQueueService" where
  "initialService st =
     \<lparr>heap = (\<lambda>_. blankMessage), nextRef = 0, queue = [], isOnline = True,
      activations = [], asyncStorage = st\<rparr>"

subsection \<open>Notions for stating properties of the queue\<close>

text \<open>
  The messages a suspended \<open>syncQueue\<close> holds: the one being sent and those its loop has
  still to send. \<open>held\<close> lists them for all activations, \<open>inFlight\<close> lists the messages
  being sent, and \<open>passes\<close> counts the suspended \<open>syncQueue\<close> calls that have not yet
  reached their final \<open>saveQueue\<close>.
\<close>

fun holds :: "activation \<Rightarrow> ref list" where
  "holds (AwaitSend queuedMessage rest) = queuedMessage # rest"
| "holds _ = []"

definition held :: "OfflineQueueService \<Rightarrow> ref list" where
  "held s = concat (map holds (activations s))"

fun sending :: "activation \<Rightarrow> ref list" where
  "sending (AwaitSend queuedMessage rest) = [queuedMessage]"
| "sending _ = []"

definition inFlight :: "OfflineQueueService \<Rightarrow> ref list" where
  "inFlight s = concat (map sending (activations s))"

fun isPass :: "activation \<Rightarrow> bool" where
  "isPass (AwaitQueueWrite thenSync) = False"
| "isPass _ = True"

definition passes :: "OfflineQueueService \<Rightarrow> nat" where
  "passes s = length (filter isPass (activations s))"

text \<open>
  A message is consistent when it is \<open>Failed\<close> with three counted failures or not \<open>Failed\<close>
  with fewer. A state is well formed when its references are allocated, no reference is
  twice in the queue or twice among the held ones, every held message is \<open>Syncing\<close>, and
  every allocated message is consistent.
\<close>

definition consistent :: "QueuedMessage \<Rightarrow> bool" where
  "consistent q = (if q_status q = Failed then q_retryCount q = 3 else q_retryCount q < 3)"

definition wellFormed :: "OfflineQueueService \<Rightarrow> bool" where
  "wellFormed s =
     (distinct (queue s) \<and> distinct (held s)
      \<and> list_all (\<lambda>q. q < nextRef s) (queue s @ held s)
      \<and> list_all (\<lambda>q. q_status (heap s q) = Syncing) (held s)
      \<and> list_all (\<lambda>q. consistent (heap s q)) [0..<nextRef s])"

text \<open>
  Counting along a run: \<open>rejectedOn q e s\<close> says that event \<open>e\<close>, in state \<open>s\<close>, is the
  rejection of a delivery of message \<open>q\<close>; \<open>retriedOn q e s\<close> that it is the user's retry
  taking up the failed message \<open>q\<close>. \<open>failures q es s n\<close> is the number of failed deliveries
  of \<open>q\<close> after the run \<open>es\<close> from \<open>s\<close>, counted from \<open>n\<close> and started again at each retry.
\<close>

definition rejectedOn :: "ref \<Rightarrow> event \<Rightarrow> OfflineQueueService \<Rightarrow> bool" where
  "rejectedOn q e s =
     (case e of
        Resume i (Some err) now \<Rightarrow>
          i < length (activations s) \<and>
          (case activations s ! i of AwaitSend queuedMessage rest \<Rightarrow> queuedMessage = q | _ \<Rightarrow> False)
      | _ \<Rightarrow> False)"

definition deliveredOn :: "ref \<Rightarrow> event \<Rightarrow> OfflineQueueService \<Rightarrow> bool" where
  "deliveredOn q e s =
     (case e of
        Resume i None now \<Rightarrow>
          i < length (activations s) \<and>
          (case activations s ! i of AwaitSend queuedMessage rest \<Rightarrow> queuedMessage = q | _ \<Rightarrow> False)
      | _ \<Rightarrow> False)"

definition retriedOn :: "ref \<Rightarrow> event \<Rightarrow> OfflineQueueService \<Rightarrow> bool" where
  "retriedOn q e s = (e = RetryFailed \<and> q \<in> set (queue s) \<and> q_status (heap s q) = Failed)"

fun failures :: "ref \<Rightarrow> event list \<Rightarrow> OfflineQueueService \<Rightarrow> nat \<Rightarrow> nat" where
  "failures q [] s n = n"
| "failures q (e # es) s n =
     failures q es (step e s)
       (if rejectedOn q e s then n + 1 else if retriedOn q e s then 0 else n)"

section \<open>Example states\<close>

text \<open>
  Concrete states on which the theorems are instantiated: a storage whose reads and writes
  all succeed, a provider that maps every text to the vector \<open>[1]\<close>, and a database of two
  documents with the same text and embedding, the older one inserted first.
\<close>

definition workingStorage :: AsyncStorage where
  "workingStorage =
     \<lparr>vector_db = Missing, embedding_cache = Missing, sync_status = Missing,
      getFails = (\<lambda>_. None), setFails = (\<lambda>_. None)\<rparr>"

definition unitProvider :: "string \<Rightarrow> error + number list" where
  "unitProvider text = Inr [Num 1]"

definition olderDoc :: VectorDocument where
  "olderDoc =
     \<lparr>d_id = ''s1_m1'', d_sessionId = ''s1'', d_messageId = ''m1'', d_content = ''hello'',
      d_embedding = [Num 1], d_timestamp = 1, d_role = User, d_sessionTitle = ''First''\<rparr>"

definition newerDoc :: VectorDocument where
  "newerDoc =
     \<lparr>d_id = ''s2_m1'', d_sessionId = ''s2'', d_messageId = ''m1'', d_content = ''hello'',
      d_embedding = [Num 1], d_timestamp = 2, d_role = User, d_sessionTitle = ''Second''\<rparr>"

definition twoDocs :: VectorDatabase where
  "twoDocs =
     \<lparr>documents = [(''s1_m1'', olderDoc), (''s2_m1'', newerDoc)],
      embeddingCache = [(''hello'', [Num 1])],
      initialized = True,
      openAIInstance = Some unitProvider,
      storage = workingStorage,
      embedCalls = []\<rparr>"

text \<open>
  A provider that maps every text to \<open>[1, 1]\<close>, and a database of two documents, the first
  with that embedding and the second with the parallel embedding \<open>[3, 3]\<close>.
\<close>

definition pairProvider :: "string \<Rightarrow> error + number list" where
  "pairProvider text = Inr [Num 1, Num 1]"

definition sameDoc :: VectorDocument where
  "sameDoc =
     \<lparr>d_id = ''s1_m1'', d_sessionId = ''s1'', d_messageId = ''m1'', d_content = ''hello'',
      d_embedding = [Num 1, Num 1], d_timestamp = 1, d_role = User, d_sessionTitle = ''First''\<rparr>"

definition parallelDoc :: VectorDocument where
  "parallelDoc =
     \<lparr>d_id = ''s2_m1'', d_sessionId = ''s2'', d_messageId = ''m1'', d_content = ''hello there'',
      d_embedding = [Num 3, Num 3], d_timestamp = 2, d_role = User, d_sessionTitle = ''Second''\<rparr>"

definition parallelDocs :: VectorDatabase where
  "parallelDocs =
     \<lparr>documents = [(''s1_m1'', sameDoc), (''s2_m1'', parallelDoc)],
      embeddingCache = [],
      initialized = True,
      openAIInstance = Some pairProvider,
      storage = workingStorage,
      embedCalls = []\<rparr>"




definition unloaded :: VectorDatabase where
  "unloaded =
     \<lparr>documents = [], embeddingCache = [], initialized = False,
      openAIInstance = Some unitProvider,
      storage = workingStorage\<lparr>vector_db := Text [(''s1_m1'', olderDoc)]\<rparr>,
      embedCalls = []\<rparr>"

definition helloSession :: Session where
  "helloSession =
     \<lparr>s_id = ''s1'', s_title = ''First'',
      s_messages = [\<lparr>m_id = ''m1'', m_role = User, m_content = ''hello'', m_timestamp = 1, m_audioUri = None\<rparr>],
      s_createdAt = 1, s_updatedAt = 1\<rparr>"

definition failingProvider :: "string \<Rightarrow> error + number list" where
  "failingProvider text = Inl (Error ''quota'')"

text \<open>
  For the queue: two messages and a rejection; \<open>oneQueued\<close>, the service after one
  \<open>queueMessage\<close>; \<open>oneInFlight\<close>, where that message is being sent and a second one has
  been queued; \<open>twiceRejected\<close>, a run in which two deliveries of the first message are
  rejected, each followed by a tick of the timer that starts the next pass.
\<close>

definition hello :: Message where
  "hello = \<lparr>m_id = ''m1'', m_role = User, m_content = ''hello'', m_timestamp = 1, m_audioUri = None\<rparr>"

definition bye :: Message where
  "bye = \<lparr>m_id = ''m2'', m_role = User, m_content = ''bye'', m_timestamp = 3, m_audioUri = None\<rparr>"

definition networkError :: error where
  "networkError = Error ''Network request failed''"

definition oneQueued :: OfflineQueueService where
  "oneQueued = queueMessage ''s1'' hello 1 (initialService workingStorage)"

definition oneInFlight :: OfflineQueueService where
  "oneInFlight = run [Resume 0 None 2, QueueMessage ''s1'' bye 3] oneQueued"

definition twiceRejected :: "event list" where
  "twiceRejected =
     [Resume 0 None 2, Resume 0 (Some networkError) 3, Timer, Resume 1 (Some networkError) 4, Timer]"

section \<open>Binary64 arithmetic: proofs\<close>

subsection \<open>The error of one rounding\<close>

lemma pow2_powr: "pow2 e = 2 powr of_int e"
  by (simp add: pow2_def powr_real_of_int field_simps)

lemma pow2_pos: "0 < pow2 e"
  by (simp add: pow2_powr)

lemma pow2_add: "pow2 (a + b) = pow2 a * pow2 b"
  by (simp add: pow2_powr powr_add)

lemma roundEven_near: "\<bar>of_int (roundEven q) - q\<bar> \<le> 1 / 2"
  unfolding roundEven_def Let_def by (auto simp: abs_le_iff)

lemma roundEven_unique:
  assumes "\<bar>q - of_int n\<bar> < 1 / 2"
  shows "roundEven q = n"
proof (cases "of_int n \<le> q")
  case True
  with assms have "\<lfloor>q\<rfloor> = n" by (intro floor_unique) (simp_all add: abs_less_iff)
  with assms True show ?thesis by (simp add: roundEven_def abs_less_iff)
next
  case False
  with assms have "\<lfloor>q\<rfloor> = n - 1" by (intro floor_unique) (simp_all add: abs_less_iff)
  with assms False show ?thesis by (simp add: roundEven_def abs_less_iff)
qed

lemma roundEven_ge: "of_int n \<le> q \<Longrightarrow> n \<le> roundEven q"
proof -
  assume "of_int n \<le> q"
  then have "n \<le> \<lfloor>q\<rfloor>" by (simp add: le_floor_iff)
  then show ?thesis unfolding roundEven_def Let_def by auto
qed

lemma roundEven_le: "q \<le> of_int n \<Longrightarrow> roundEven q \<le> n"
proof -
  assume a: "q \<le> of_int n"
  show ?thesis
  proof (cases "q = of_int n")
    case True
    then show ?thesis by (simp add: roundEven_def)
  next
    case False
    with a have "q < of_int n" by simp
    then have "\<lfloor>q\<rfloor> < n" by (simp add: floor_less_iff)
    then show ?thesis unfolding roundEven_def Let_def by auto
  qed
qed

lemma round64_unfold:
  "x \<noteq> 0 \<Longrightarrow> round64 x =
     (if pow2 1024 \<le> \<bar>of_int (roundEven (x / ulp x)) * ulp x\<bar>
      then (if 0 < x then PosInf else NegInf)
      else Num (of_int (roundEven (x / ulp x)) * ulp x))"
  by (simp add: round64_def Let_def)

lemma ulp_pos: "0 < ulp x"
  by (simp add: ulp_def pow2_pos)

lemma round_err_half_ulp: "\<bar>of_int (roundEven (x / ulp x)) * ulp x - x\<bar> \<le> ulp x / 2"
proof -
  have "of_int (roundEven (x / ulp x)) * ulp x - x = (of_int (roundEven (x / ulp x)) - x / ulp x) * ulp x"
    using ulp_pos [of x] by (simp add: field_simps)
  then have "\<bar>of_int (roundEven (x / ulp x)) * ulp x - x\<bar> = \<bar>of_int (roundEven (x / ulp x)) - x / ulp x\<bar> * ulp x"
    using ulp_pos [of x] by (simp only: abs_mult abs_of_pos)
  also have "\<dots> \<le> 1 / 2 * ulp x"
    by (rule mult_right_mono [OF roundEven_near]) (simp add: less_imp_le [OF ulp_pos])
  finally show ?thesis by simp
qed

lemma ulp_le:
  assumes "x \<noteq> 0"
  shows "ulp x \<le> max (\<bar>x\<bar> / 2 ^ 52) (1 / 2 ^ 1074)"
proof (cases "- 1022 \<le> \<lfloor>log 2 \<bar>x\<bar>\<rfloor>")
  case True
  then have e: "expo x = \<lfloor>log 2 \<bar>x\<bar>\<rfloor>" by (simp add: expo_def)
  have "2 powr of_int (expo x) \<le> \<bar>x\<bar>"
    using floor_log_eq_powr_iff [of "\<bar>x\<bar>" 2 "expo x"] assms e by simp
  then have "pow2 (expo x) \<le> \<bar>x\<bar>" by (simp add: pow2_powr)
  moreover have "pow2 (expo x) = ulp x * 2 ^ 52"
    using pow2_add [of "expo x - 52" 52] by (simp add: ulp_def pow2_def)
  ultimately have "ulp x \<le> \<bar>x\<bar> / 2 ^ 52" by (simp add: field_simps)
  then show ?thesis by simp
next
  case False
  then have e: "expo x = - 1022" by (simp add: expo_def)
  then have "ulp x = 1 / 2 ^ 1074" by (simp add: ulp_def pow2_def)
  then show ?thesis by simp
qed

lemma ulp_normal:
  assumes "pow2 (- 1022) \<le> \<bar>x\<bar>"
  shows "ulp x \<le> \<bar>x\<bar> / 2 ^ 52"
proof -
  have pos: "0 < \<bar>x\<bar>" using assms pow2_pos [of "- 1022"] by linarith
  have "2 powr of_int (- 1022) \<le> \<bar>x\<bar>" using assms by (simp add: pow2_powr)
  then have "of_int (- 1022) \<le> log 2 \<bar>x\<bar>"
    using pos by (simp add: le_log_iff)
  then have "- 1022 \<le> \<lfloor>log 2 \<bar>x\<bar>\<rfloor>" by (simp add: le_floor_iff)
  then have e: "expo x = \<lfloor>log 2 \<bar>x\<bar>\<rfloor>" by (simp add: expo_def)
  have "2 powr of_int (expo x) \<le> \<bar>x\<bar>"
    using floor_log_eq_powr_iff [of "\<bar>x\<bar>" 2 "expo x"] pos e by simp
  then have "pow2 (expo x) \<le> \<bar>x\<bar>" by (simp add: pow2_powr)
  moreover have "pow2 (expo x) = ulp x * 2 ^ 52"
    using pow2_add [of "expo x - 52" 52] by (simp add: ulp_def pow2_def)
  ultimately show "ulp x \<le> \<bar>x\<bar> / 2 ^ 52" by (simp add: field_simps)
qed

text \<open>
  A real of magnitude at most \<open>2^1023\<close> is rounded to a finite number. The rounding changes
  it by at most half a unit in the last place: by at most \<open>2^-53\<close> of its magnitude plus
  \<open>tiny\<close>, and in the normal range by at most \<open>2^-53\<close> of its magnitude.
\<close>

lemma tiny_pos: "0 < tiny"
  by (simp add: tiny_def)

lemma round64_abs_err:
  assumes "\<bar>x\<bar> \<le> 2 ^ 1023"
  shows "\<exists>r. round64 x = Num r \<and> \<bar>r - x\<bar> \<le> \<bar>x\<bar> / 2 ^ 53 + tiny"
proof (cases "x = 0")
  case True
  then show ?thesis using tiny_pos by (simp add: round64_def)
next
  case False
  define r where "r = of_int (roundEven (x / ulp x)) * ulp x"
  have h: "\<bar>r - x\<bar> \<le> ulp x / 2" unfolding r_def by (rule round_err_half_ulp)
  have "ulp x \<le> \<bar>x\<bar> / 2 ^ 52 + 1 / 2 ^ 1074"
    using ulp_le [OF False] by (simp add: max_def split: if_splits)
  with h have err: "\<bar>r - x\<bar> \<le> \<bar>x\<bar> / 2 ^ 53 + tiny" by (simp add: tiny_def)
  then have "\<bar>r\<bar> \<le> \<bar>x\<bar> + \<bar>x\<bar> / 2 ^ 53 + tiny" by linarith
  also have "\<dots> < 2 ^ 1024" using assms by (simp add: tiny_def)
  finally have "\<not> pow2 1024 \<le> \<bar>r\<bar>" by (simp add: pow2_def)
  then have "round64 x = Num r"
    using False by (simp add: round64_unfold r_def)
  with err show ?thesis by blast
qed

lemma round64_rel_err:
  assumes "1 / 2 ^ 1022 \<le> \<bar>x\<bar>" "\<bar>x\<bar> \<le> 2 ^ 1023"
  shows "\<exists>r. round64 x = Num r \<and> \<bar>r - x\<bar> \<le> \<bar>x\<bar> / 2 ^ 53"
proof -
  have nz: "x \<noteq> 0" using assms(1) by auto
  define r where "r = of_int (roundEven (x / ulp x)) * ulp x"
  have h: "\<bar>r - x\<bar> \<le> ulp x / 2" unfolding r_def by (rule round_err_half_ulp)
  have "ulp x \<le> \<bar>x\<bar> / 2 ^ 52"
    using assms(1) by (intro ulp_normal) (simp add: pow2_def)
  with h have err: "\<bar>r - x\<bar> \<le> \<bar>x\<bar> / 2 ^ 53" by simp
  then have "\<bar>r\<bar> \<le> \<bar>x\<bar> + \<bar>x\<bar> / 2 ^ 53" by linarith
  also have "\<dots> < 2 ^ 1024" using assms by simp
  finally have "\<not> pow2 1024 \<le> \<bar>r\<bar>" by (simp add: pow2_def)
  then have "round64 x = Num r"
    using nz by (simp add: round64_unfold r_def)
  with err show ?thesis by blast
qed

subsection \<open>The error of the three sums\<close>

text \<open>
  One step of the loop rounds a product and a sum. When the accumulator \<open>d\<close> differs from the
  exact sum \<open>D\<close> by at most \<open>c * A + b\<close>, with \<open>A\<close> the sum of the absolute values of the products
  so far, the next accumulator differs from the next exact sum by at most
  \<open>(c + 2 / 2^53) * A' + (b + 6 * tiny)\<close>. After \<open>k\<close> steps the error is at most
  \<open>2 * (k + 1) / 2^53 * A + 6 * k * tiny\<close>, and no sum overflows while \<open>A\<close> is at most
  \<open>2^1000\<close> and \<open>k\<close> at most \<open>2^20\<close>.
\<close>

lemma adot_nonneg: "0 \<le> adot a b"
  unfolding adot_def by (rule sum_list_nonneg) auto

lemma adot_Cons: "adot (x # xs) (y # ys) = \<bar>x * y\<bar> + adot xs ys"
  by (simp add: adot_def)

lemma dot_Cons: "dot (x # xs) (y # ys) = x * y + dot xs ys"
  by (simp add: dot_def)

lemma acc_step:
  fixes d D A c b p x y d' :: real
  assumes E: "\<bar>d - D\<bar> \<le> c * A + b" and DA: "\<bar>D\<bar> \<le> A"
    and c: "1 / 2 ^ 106 \<le> c" "c \<le> 1" and b: "0 \<le> b" "b / 2 ^ 53 \<le> 3 * tiny"
    and p: "\<bar>p - x * y\<bar> \<le> \<bar>x * y\<bar> / 2 ^ 53 + tiny"
    and d': "\<bar>d' - (d + p)\<bar> \<le> \<bar>d + p\<bar> / 2 ^ 53 + tiny"
  shows "\<bar>d' - (D + x * y)\<bar> \<le> (c + 2 / 2 ^ 53) * (A + \<bar>x * y\<bar>) + (b + 6 * tiny)"
proof -
  define P where "P = \<bar>x * y\<bar>"
  define cA where "cA = c * A"
  define cP where "cP = c * P"
  have A0: "0 \<le> A" using DA by linarith
  have P0: "0 \<le> P" by (simp add: P_def)
  have cA0: "0 \<le> cA" unfolding cA_def using c A0 by simp
  have cA1: "cA \<le> A" unfolding cA_def using mult_right_mono [of c 1 A] c(2) A0 by simp
  have cP1: "P / 2 ^ 106 \<le> cP"
    unfolding cP_def using mult_right_mono [OF c(1) P0] by simp
  have E': "\<bar>d - D\<bar> \<le> cA + b" using E by (simp add: cA_def)
  have p': "\<bar>p - x * y\<bar> \<le> P / 2 ^ 53 + tiny" using p by (simp add: P_def)
  have xy: "\<bar>x * y\<bar> = P" by (simp add: P_def)
  have s: "\<bar>d + p\<bar> \<le> A + cA + b + P + P / 2 ^ 53 + tiny"
    using E' DA p' xy by linarith
  have "\<bar>d' - (D + x * y)\<bar> \<le> \<bar>d' - (d + p)\<bar> + \<bar>d - D\<bar> + \<bar>p - x * y\<bar>" by linarith
  also have "\<dots> \<le> (A + cA + b + P + P / 2 ^ 53 + tiny) / 2 ^ 53 + tiny
                   + (cA + b) + (P / 2 ^ 53 + tiny)"
    using d' s E' p' by (simp add: field_simps)
  also have "\<dots> \<le> cA + cP + 2 * A / 2 ^ 53 + 2 * P / 2 ^ 53 + (b + 6 * tiny)"
    using cA1 cP1 b A0 P0 tiny_pos by (simp add: field_simps)
  also have "\<dots> = (c + 2 / 2 ^ 53) * (A + P) + (b + 6 * tiny)"
    by (simp add: cA_def cP_def algebra_simps)
  finally show ?thesis by (simp add: P_def)
qed

lemma dotFrom_error:
  fixes d D A :: real and k :: nat
  assumes "length xs = length ys"
    and "k + length xs \<le> 2 ^ 20"
    and "\<bar>d - D\<bar> \<le> 2 * (real k + 1) / 2 ^ 53 * A + 6 * real k * tiny"
    and "\<bar>D\<bar> \<le> A"
    and "A + adot xs ys \<le> 2 ^ 1000"
  shows "\<exists>r. dotFrom (Num d) (map Num xs) (map Num ys) = Num r \<and>
             \<bar>r - (D + dot xs ys)\<bar> \<le>
               2 * (real (k + length xs) + 1) / 2 ^ 53 * (A + adot xs ys) + 6 * real (k + length xs) * tiny"
  using assms
proof (induction xs ys arbitrary: d D A k rule: list_induct2)
  case Nil
  then show ?case by (simp add: dot_def adot_def)
next
  case (Cons x xs y ys)
  define c where "c = 2 * (real k + 1) / 2 ^ 53"
  define b where "b = 6 * real k * tiny"
  define P where "P = \<bar>x * y\<bar>"
  have k: "real k \<le> 2 ^ 20"
  proof -
    have "k \<le> 2 ^ 20" using Cons.prems(1) by simp
    then have "real k \<le> real (2 ^ 20)" by (simp only: of_nat_le_iff)
    then show ?thesis by simp
  qed
  have A0: "0 \<le> A" using Cons.prems(3) by linarith
  have P0: "0 \<le> P" by (simp add: P_def)
  have ad0: "0 \<le> adot xs ys" by (rule adot_nonneg)
  have tot: "A + P + adot xs ys \<le> 2 ^ 1000"
    using Cons.prems(4) by (simp add: adot_Cons P_def)
  have c1: "1 / 2 ^ 106 \<le> c" "c \<le> 1" "0 \<le> c"
    using k by (simp_all add: c_def field_simps)
  have b1: "0 \<le> b" "b / 2 ^ 53 \<le> 3 * tiny" "b \<le> 1"
    using k tiny_pos by (simp_all add: b_def field_simps tiny_def)
  have E: "\<bar>d - D\<bar> \<le> c * A + b" using Cons.prems(2) by (simp add: c_def b_def)
  have cA: "c * A \<le> A" using mult_right_mono [of c 1 A] c1(2) A0 by simp
  have dabs: "\<bar>d\<bar> \<le> 2 * A + 1" using E Cons.prems(3) cA b1(3) by linarith
  have "\<bar>x * y\<bar> \<le> 2 ^ 1023"
  proof -
    have "P \<le> 2 ^ 1000" using tot A0 ad0 by linarith
    also have "\<dots> \<le> (2::real) ^ 1023" by simp
    finally show ?thesis by (simp add: P_def)
  qed
  then obtain p where p: "round64 (x * y) = Num p" "\<bar>p - x * y\<bar> \<le> \<bar>x * y\<bar> / 2 ^ 53 + tiny"
    using round64_abs_err by blast
  have pabs: "\<bar>p\<bar> \<le> 2 * P + 1"
  proof -
    have "tiny \<le> 1" by (simp add: tiny_def)
    moreover have "P / 2 ^ 53 \<le> P" using P0 by (simp add: field_simps)
    ultimately show ?thesis using p(2) by (simp add: P_def)
  qed
  have "\<bar>d + p\<bar> \<le> 2 ^ 1023"
  proof -
    have "\<bar>d + p\<bar> \<le> 2 * A + 2 * P + 2" using dabs pabs by linarith
    also have "\<dots> \<le> 2 * 2 ^ 1000 + 2" using tot ad0 by linarith
    also have "\<dots> \<le> (2::real) ^ 1023" by simp
    finally show ?thesis .
  qed
  then obtain d' where d': "round64 (d + p) = Num d'" "\<bar>d' - (d + p)\<bar> \<le> \<bar>d + p\<bar> / 2 ^ 53 + tiny"
    using round64_abs_err by blast
  have step: "\<bar>d' - (D + x * y)\<bar> \<le> (c + 2 / 2 ^ 53) * (A + \<bar>x * y\<bar>) + (b + 6 * tiny)"
    using E Cons.prems(3) c1(1,2) b1(1,2) p(2) d'(2) by (rule acc_step)
  have c': "c + 2 / 2 ^ 53 = 2 * (real (Suc k) + 1) / 2 ^ 53"
    by (simp add: c_def field_simps)
  have b': "b + 6 * tiny = 6 * real (Suc k) * tiny"
    by (simp add: b_def algebra_simps)
  have pre1: "Suc k + length xs \<le> 2 ^ 20" using Cons.prems(1) by simp
  have pre2: "\<bar>d' - (D + x * y)\<bar> \<le> 2 * (real (Suc k) + 1) / 2 ^ 53 * (A + P) + 6 * real (Suc k) * tiny"
    using step unfolding c' b' by (simp add: P_def)
  have pre3: "\<bar>D + x * y\<bar> \<le> A + P" using Cons.prems(3) by (simp add: P_def)
  have pre4: "A + P + adot xs ys \<le> 2 ^ 1000" by (rule tot)
  obtain r where r: "dotFrom (Num d') (map Num xs) (map Num ys) = Num r"
    "\<bar>r - (D + x * y + dot xs ys)\<bar> \<le>
       2 * (real (Suc k + length xs) + 1) / 2 ^ 53 * (A + P + adot xs ys) + 6 * real (Suc k + length xs) * tiny"
    using Cons.IH [OF pre1 pre2 pre3 pre4] by blast
  have "dotFrom (Num d) (map Num (x # xs)) (map Num (y # ys)) = Num r"
    using r(1) p(1) d'(1) by simp
  moreover have "\<bar>r - (D + dot (x # xs) (y # ys))\<bar> \<le>
      2 * (real (k + length (x # xs)) + 1) / 2 ^ 53 * (A + adot (x # xs) (y # ys)) + 6 * real (k + length (x # xs)) * tiny"
    using r(2) by (simp add: dot_Cons adot_Cons P_def add.assoc)
  ultimately show ?case by blast
qed

subsection \<open>The error of the quotient\<close>

text \<open>
  From sums of squares that are within the relative error \<open>g\<close> of \<open>N1\<close> and \<open>N2\<close>, both between
  \<open>2^-990\<close> and \<open>2^990\<close>, and a dot product within \<open>g * sqrt N1 * sqrt N2\<close> of \<open>D\<close>: each square
  root, their product and the quotient are in the normal range (the quotient may
  underflow), the denominator is not \<open>0\<close>, and the quotient is within \<open>8 * g + 19 / 2^53\<close> of
  \<open>D / (sqrt N1 * sqrt N2)\<close>.
\<close>

lemma sqrt_rel:
  fixes n N g :: real
  assumes N: "0 < N" and n: "0 \<le> n" and e: "\<bar>n - N\<bar> \<le> g * N"
  shows "\<bar>sqrt n - sqrt N\<bar> \<le> g * sqrt N"
proof -
  define a where "a = sqrt n"
  define b where "b = sqrt N"
  have a0: "0 \<le> a" and b0: "0 < b" using n N by (simp_all add: a_def b_def)
  have g0: "0 \<le> g"
  proof -
    have "0 \<le> g * N" using e by linarith
    then show ?thesis using N by (simp add: zero_le_mult_iff)
  qed
  have sq: "a * a = n" "b * b = N" using n N by (simp_all add: a_def b_def)
  have "\<bar>a - b\<bar> * (a + b) = \<bar>(a - b) * (a + b)\<bar>"
    using a0 b0 by (simp add: abs_mult)
  also have "(a - b) * (a + b) = n - N" using sq by (simp add: algebra_simps)
  also have "\<bar>n - N\<bar> \<le> g * N" by (rule e)
  also have "g * N = (g * b) * b" using sq by simp
  also have "\<dots> \<le> (g * b) * (a + b)"
    by (rule mult_left_mono) (use a0 b0 g0 in simp_all)
  finally have "\<bar>a - b\<bar> * (a + b) \<le> (g * b) * (a + b)" .
  then have "\<bar>a - b\<bar> \<le> g * b" using a0 b0 by (simp add: mult_le_cancel_right)
  then show ?thesis by (simp add: a_def b_def)
qed

lemma fsqrt_error:
  fixes n N g :: real
  assumes N: "1 / 2 ^ 990 \<le> N" "N \<le> 2 ^ 990" and g: "0 \<le> g" "g \<le> 1 / 2 ^ 10"
    and e: "\<bar>n - N\<bar> \<le> g * N"
  shows "\<exists>s. fsqrt (Num n) = Num s \<and> \<bar>s - sqrt N\<bar> \<le> (g + 2 / 2 ^ 53) * sqrt N"
proof -
  have Npos: "0 < N" using N(1) by (rule less_le_trans [rotated]) simp
  have gN: "g * N \<le> N / 2" using mult_right_mono [of g "1 / 2" N] g Npos by simp
  have n1: "N / 2 \<le> n" "n \<le> 2 * N" using e gN by linarith+
  have npos: "0 < n" using n1 Npos by linarith
  have lo: "1 / 2 ^ 496 \<le> sqrt n"
  proof (rule real_le_rsqrt)
    have "(1 / 2 ^ 496)\<^sup>2 = (1 / 2 ^ 992 :: real)" by (simp add: power2_eq_square)
    also have "\<dots> \<le> N / 2" using N(1) by simp
    finally show "(1 / 2 ^ 496)\<^sup>2 \<le> n" using n1 by linarith
  qed
  have hi: "sqrt n \<le> 2 ^ 496"
  proof -
    have "n \<le> 2 * 2 ^ 990" using n1 N(2) by linarith
    also have "\<dots> \<le> ((2::real) ^ 496)\<^sup>2" by (simp add: power2_eq_square)
    finally have "n \<le> (2 ^ 496)\<^sup>2" .
    moreover have "0 \<le> n" using npos by simp
    ultimately show ?thesis by (auto intro: real_le_lsqrt)
  qed
  have sn0: "0 \<le> sqrt n" using npos by simp
  have "1 / 2 ^ 1022 \<le> \<bar>sqrt n\<bar>"
  proof -
    have "(1 / 2 ^ 1022 :: real) \<le> 1 / 2 ^ 496" by simp
    then show ?thesis using lo sn0 by linarith
  qed
  moreover have "\<bar>sqrt n\<bar> \<le> 2 ^ 1023"
  proof -
    have "(2 ^ 496 :: real) \<le> 2 ^ 1023" by simp
    then show ?thesis using hi sn0 by linarith
  qed
  ultimately obtain s where s: "round64 (sqrt n) = Num s" "\<bar>s - sqrt n\<bar> \<le> \<bar>sqrt n\<bar> / 2 ^ 53"
    using round64_rel_err by blast
  have r: "\<bar>sqrt n - sqrt N\<bar> \<le> g * sqrt N"
    using Npos npos e by (intro sqrt_rel) simp_all
  define S where "S = sqrt N"
  define gS where "gS = g * S"
  have S0: "0 \<le> S" using Npos by (simp add: S_def)
  have gS1: "gS \<le> S" unfolding gS_def using mult_right_mono [of g 1 S] g S0 by simp
  have r': "\<bar>sqrt n - S\<bar> \<le> gS" using r by (simp add: S_def gS_def)
  have s': "\<bar>s - sqrt n\<bar> \<le> sqrt n / 2 ^ 53" using s(2) abs_of_nonneg [OF sn0] by (simp only:)
  have "sqrt n \<le> 2 * S" using r' gS1 by linarith
  then have "\<bar>s - sqrt n\<bar> \<le> 2 * S / 2 ^ 53" using s' by simp
  then have "\<bar>s - S\<bar> \<le> gS + 2 * S / 2 ^ 53" using r' by linarith
  also have "\<dots> = (g + 2 / 2 ^ 53) * S" by (simp add: gS_def algebra_simps)
  finally have "\<bar>s - sqrt N\<bar> \<le> (g + 2 / 2 ^ 53) * sqrt N" by (simp add: S_def)
  moreover have "fsqrt (Num n) = Num s" using npos s(1) by simp
  ultimately show ?thesis by blast
qed

lemma sqrt_range:
  fixes N :: real
  assumes "1 / 2 ^ 990 \<le> N" "N \<le> 2 ^ 990"
  shows "1 / 2 ^ 495 \<le> sqrt N" "sqrt N \<le> 2 ^ 495"
proof -
  have Npos: "0 \<le> N" using assms(1) by (rule order_trans [rotated]) simp
  have "(1 / 2 ^ 495)\<^sup>2 = (1 / 2 ^ 990 :: real)" by (simp add: power2_eq_square)
  then have "(1 / 2 ^ 495)\<^sup>2 \<le> N" using assms(1) by (simp only:)
  then show "1 / 2 ^ 495 \<le> sqrt N" by (rule real_le_rsqrt)
  have "((2::real) ^ 495)\<^sup>2 = 2 ^ 990" by (simp add: power2_eq_square)
  then have "N \<le> (2 ^ 495)\<^sup>2" using assms(2) by (simp only:)
  then show "sqrt N \<le> 2 ^ 495" using Npos by (auto intro: real_le_lsqrt)
qed

lemma cosine_tail:
  fixes d D n1 N1 n2 N2 g :: real
  assumes N1: "1 / 2 ^ 990 \<le> N1" "N1 \<le> 2 ^ 990"
    and N2: "1 / 2 ^ 990 \<le> N2" "N2 \<le> 2 ^ 990"
    and g: "0 \<le> g" "g \<le> 1 / 2 ^ 10"
    and e1: "\<bar>n1 - N1\<bar> \<le> g * N1" and e2: "\<bar>n2 - N2\<bar> \<le> g * N2"
    and ed: "\<bar>d - D\<bar> \<le> g * (sqrt N1 * sqrt N2)" and DP: "\<bar>D\<bar> \<le> sqrt N1 * sqrt N2"
  shows "\<exists>den r. fmul (fsqrt (Num n1)) (fsqrt (Num n2)) = Num den \<and> den \<noteq> 0 \<and>
           fdiv (Num d) (Num den) = Num r \<and>
           \<bar>r - D / (sqrt N1 * sqrt N2)\<bar> \<le> 8 * g + 19 / 2 ^ 53"
proof -
  define S1 where "S1 = sqrt N1"
  define S2 where "S2 = sqrt N2"
  define P where "P = S1 * S2"
  define h where "h = g + 2 / 2 ^ 53"
  define t where "t = 4 * g + 8 / 2 ^ 53"
  have S1: "1 / 2 ^ 495 \<le> S1" "S1 \<le> 2 ^ 495"
    unfolding S1_def using N1 by (rule sqrt_range)+
  have S2: "1 / 2 ^ 495 \<le> S2" "S2 \<le> 2 ^ 495"
    unfolding S2_def using N2 by (rule sqrt_range)+
  have S1pos: "0 < S1" using S1(1) by (rule less_le_trans [rotated]) simp
  have S2pos: "0 < S2" using S2(1) by (rule less_le_trans [rotated]) simp
  have Ppos: "0 < P" unfolding P_def using S1pos S2pos by simp
  have Plo: "1 / 2 ^ 990 \<le> P"
  proof -
    have "(1 / 2 ^ 495) * (1 / 2 ^ 495) \<le> S1 * S2"
      by (rule mult_mono) (use S1 S2 S1pos in simp_all)
    moreover have "(1 / 2 ^ 495) * (1 / 2 ^ 495) = (1 / 2 ^ 990 :: real)" by simp
    ultimately show ?thesis by (simp only: P_def)
  qed
  have Phi: "P \<le> 2 ^ 990"
  proof -
    have "S1 * S2 \<le> 2 ^ 495 * 2 ^ 495"
      by (rule mult_mono) (use S1 S2 S2pos in simp_all)
    moreover have "(2::real) ^ 495 * 2 ^ 495 = 2 ^ 990" by simp
    ultimately show ?thesis by (simp only: P_def)
  qed
  have h: "0 \<le> h" "h \<le> 1 / 8" using g by (simp_all add: h_def)
  obtain s1 where s1: "fsqrt (Num n1) = Num s1" "\<bar>s1 - S1\<bar> \<le> h * S1"
    using fsqrt_error [OF N1 g e1] unfolding S1_def h_def by blast
  obtain s2 where s2: "fsqrt (Num n2) = Num s2" "\<bar>s2 - S2\<bar> \<le> h * S2"
    using fsqrt_error [OF N2 g e2] unfolding S2_def h_def by blast
  have hS2: "h * S2 \<le> S2" using mult_right_mono [of h 1 S2] h S2pos by simp
  have s2abs: "\<bar>s2\<bar> \<le> 2 * S2" using s2(2) hS2 by linarith
  have prod: "\<bar>s1 * s2 - P\<bar> \<le> 3 * (h * P)"
  proof -
    have "s1 * s2 - P = (s1 - S1) * s2 + S1 * (s2 - S2)" by (simp add: P_def algebra_simps)
    then have "\<bar>s1 * s2 - P\<bar> \<le> \<bar>(s1 - S1) * s2\<bar> + \<bar>S1 * (s2 - S2)\<bar>"
      by (simp only: abs_triangle_ineq)
    also have "\<bar>(s1 - S1) * s2\<bar> = \<bar>s1 - S1\<bar> * \<bar>s2\<bar>" by (rule abs_mult)
    also have "\<bar>S1 * (s2 - S2)\<bar> = S1 * \<bar>s2 - S2\<bar>" using S1pos by (simp add: abs_mult)
    also have "\<bar>s1 - S1\<bar> * \<bar>s2\<bar> + S1 * \<bar>s2 - S2\<bar> \<le> (h * S1) * (2 * S2) + S1 * (h * S2)"
      by (intro add_mono mult_mono s1(2) s2abs s2(2)) (use h S1pos S2pos in simp_all)
    also have "\<dots> = 3 * (h * P)" by (simp add: P_def algebra_simps)
    finally show ?thesis .
  qed
  define hP where "hP = h * P"
  have hP: "0 \<le> hP" "hP \<le> P / 8"
    unfolding hP_def using mult_right_mono [of h "1 / 8" P] h Ppos by simp_all
  have prod': "\<bar>s1 * s2 - P\<bar> \<le> 3 * hP" using prod by (simp add: hP_def)
  have ss: "P / 2 \<le> s1 * s2" "s1 * s2 \<le> 2 * P" using prod' hP by linarith+
  have sspos: "0 < s1 * s2" using ss(1) Ppos by linarith
  have "1 / 2 ^ 1022 \<le> \<bar>s1 * s2\<bar>"
  proof -
    have "(1 / 2 ^ 1022 :: real) \<le> P / 2" using Plo by simp
    then show ?thesis using ss(1) by linarith
  qed
  moreover have "\<bar>s1 * s2\<bar> \<le> 2 ^ 1023"
  proof -
    have "2 * P \<le> 2 ^ 1023" using Phi by simp
    then show ?thesis using ss(2) sspos by linarith
  qed
  ultimately obtain den where den: "round64 (s1 * s2) = Num den" "\<bar>den - s1 * s2\<bar> \<le> \<bar>s1 * s2\<bar> / 2 ^ 53"
    using round64_rel_err by blast
  have den1: "\<bar>den - s1 * s2\<bar> \<le> 2 * P / 2 ^ 53"
  proof -
    have "\<bar>s1 * s2\<bar> \<le> 2 * P" using ss(2) sspos by linarith
    then have "\<bar>s1 * s2\<bar> / 2 ^ 53 \<le> 2 * P / 2 ^ 53" by (simp add: divide_right_mono)
    with den(2) show ?thesis by linarith
  qed
  have denP: "\<bar>den - P\<bar> \<le> 3 * hP + 2 * P / 2 ^ 53" using den1 prod' by linarith
  have uP: "2 * P / 2 ^ 53 \<le> P / 8" using Ppos by simp
  have denlo: "P / 2 \<le> den" using denP hP Ppos uP by linarith
  have denpos: "0 < den" using denlo Ppos by linarith
  have mul: "fmul (fsqrt (Num n1)) (fsqrt (Num n2)) = Num den"
    using s1(1) s2(1) den(1) by simp
  define q where "q = d / den"
  define C where "C = D / P"
  define gP where "gP = g * P"
  have gP: "0 \<le> gP" unfolding gP_def using g Ppos by simp
  have ed': "\<bar>d - D\<bar> \<le> gP" using ed by (simp add: gP_def P_def S1_def S2_def)
  have DP': "\<bar>D\<bar> \<le> P" using DP by (simp add: P_def S1_def S2_def)
  have tP: "gP + (3 * hP + 2 * P / 2 ^ 53) = t * P"
    by (simp add: gP_def hP_def h_def t_def algebra_simps)
  have t: "0 \<le> t" "t \<le> 1 / 4" using g by (simp_all add: t_def)
  have num: "\<bar>(d - D) * P - D * (den - P)\<bar> \<le> (t * P) * P"
  proof -
    have "\<bar>(d - D) * P - D * (den - P)\<bar> \<le> \<bar>(d - D) * P\<bar> + \<bar>D * (den - P)\<bar>"
      by (rule abs_triangle_ineq4)
    also have "\<bar>(d - D) * P\<bar> = \<bar>d - D\<bar> * P" using Ppos by (simp add: abs_mult)
    also have "\<bar>D * (den - P)\<bar> = \<bar>D\<bar> * \<bar>den - P\<bar>" by (rule abs_mult)
    also have "\<bar>d - D\<bar> * P + \<bar>D\<bar> * \<bar>den - P\<bar> \<le> gP * P + P * (3 * hP + 2 * P / 2 ^ 53)"
      by (intro add_mono mult_mono ed' DP' denP) (use Ppos gP in simp_all)
    also have "\<dots> = (gP + (3 * hP + 2 * P / 2 ^ 53)) * P" by (simp add: algebra_simps)
    also have "\<dots> = (t * P) * P" by (simp only: tP)
    finally show ?thesis .
  qed
  have qC: "\<bar>q - C\<bar> \<le> 2 * t"
  proof -
    have "q - C = ((d - D) * P - D * (den - P)) / (den * P)"
      using denpos Ppos by (simp add: q_def C_def field_simps)
    then have "\<bar>q - C\<bar> = \<bar>(d - D) * P - D * (den - P)\<bar> / (den * P)"
      using denpos Ppos by (simp add: abs_mult)
    also have "\<dots> \<le> ((t * P) * P) / (den * P)"
      by (rule divide_right_mono [OF num]) (use denpos Ppos in simp)
    also have "\<dots> = (t * P) / den" using Ppos denpos by simp
    also have "\<dots> \<le> (t * P) / (P / 2)"
      by (rule divide_left_mono [OF denlo]) (use t Ppos denpos in simp_all)
    also have "\<dots> = 2 * t" using Ppos by simp
    finally show ?thesis .
  qed
  have Cabs: "\<bar>C\<bar> \<le> 1" using DP' Ppos by (simp add: C_def)
  have qabs: "\<bar>q\<bar> \<le> 2" using qC Cabs t by linarith
  have "\<bar>q\<bar> \<le> 2 ^ 1023"
  proof -
    have "(2::real) \<le> 2 ^ 1023" by simp
    with qabs show ?thesis by linarith
  qed
  then obtain r where r: "round64 q = Num r" "\<bar>r - q\<bar> \<le> \<bar>q\<bar> / 2 ^ 53 + tiny"
    using round64_abs_err by blast
  have "tiny \<le> 1 / 2 ^ 53" by (simp add: tiny_def)
  moreover have "\<bar>q\<bar> / 2 ^ 53 \<le> 2 / 2 ^ 53" using qabs by (simp add: divide_right_mono)
  ultimately have "\<bar>r - q\<bar> \<le> 3 / 2 ^ 53" using r(2) by linarith
  then have "\<bar>r - C\<bar> \<le> 2 * t + 3 / 2 ^ 53" using qC by linarith
  also have "\<dots> = 8 * g + 19 / 2 ^ 53" by (simp add: t_def)
  finally have fin: "\<bar>r - D / (sqrt N1 * sqrt N2)\<bar> \<le> 8 * g + 19 / 2 ^ 53"
    by (simp add: C_def P_def S1_def S2_def)
  have "fdiv (Num d) (Num den) = Num r" using denpos r(1) by (simp add: q_def)
  with mul denpos fin show ?thesis by blast
qed

subsection \<open>The error of \<open>cosineSimilarity\<close>\<close>

text \<open>
  The Cauchy-Schwarz inequality bounds the dot product, and the sum of the absolute values
  of its terms, by the product of the norms; with the bounds above this gives the error
  of \<open>cosineSimilarity\<close> on vectors of at most \<open>2^20\<close> finite numbers whose sums of squares lie
  between \<open>2^-990\<close> and \<open>2^990\<close>.
\<close>

lemma dot_self_nonneg: "0 \<le> dot a a"
  unfolding dot_def by (induction a) simp_all

lemma twice_le_sum:
  fixes u P Q :: real
  assumes "u\<^sup>2 \<le> P * Q" "0 \<le> P" "0 \<le> Q"
  shows "2 * u \<le> P + Q"
proof -
  have "(2 * u)\<^sup>2 \<le> 4 * (P * Q)" using assms(1) by (simp add: power_mult_distrib)
  also have "\<dots> \<le> (P + Q)\<^sup>2"
  proof -
    have "0 \<le> (P - Q)\<^sup>2" by simp
    then show ?thesis by (simp add: power2_eq_square algebra_simps)
  qed
  finally have "(2 * u)\<^sup>2 \<le> (P + Q)\<^sup>2" .
  then have "\<bar>2 * u\<bar> \<le> \<bar>P + Q\<bar>" by (simp only: abs_le_square_iff)
  then show ?thesis using assms(2,3) by linarith
qed

lemma dot_squared_le:
  "length a = length b \<Longrightarrow> (dot a b)\<^sup>2 \<le> dot a a * dot b b"
proof (induction a b rule: list_induct2)
  case Nil
  then show ?case by (simp add: dot_def)
next
  case (Cons x xs y ys)
  define d where "d = dot xs ys"
  define A where "A = dot xs xs"
  define B where "B = dot ys ys"
  have A0: "0 \<le> A" and B0: "0 \<le> B" by (simp_all add: A_def B_def dot_self_nonneg)
  have IH: "d\<^sup>2 \<le> A * B" using Cons.IH by (simp add: d_def A_def B_def)
  have "(d * (x * y))\<^sup>2 = d\<^sup>2 * (x\<^sup>2 * y\<^sup>2)" by (simp add: power_mult_distrib)
  also have "\<dots> \<le> (A * B) * (x\<^sup>2 * y\<^sup>2)"
    by (rule mult_right_mono [OF IH]) simp
  also have "\<dots> = (A * y\<^sup>2) * (B * x\<^sup>2)" by (simp add: algebra_simps)
  finally have "2 * (d * (x * y)) \<le> A * y\<^sup>2 + B * x\<^sup>2"
    by (rule twice_le_sum) (simp_all add: A0 B0)
  moreover have "dot (x # xs) (y # ys) = x * y + d" "dot (x # xs) (x # xs) = x * x + A"
    "dot (y # ys) (y # ys) = y * y + B"
    by (simp_all add: dot_def d_def A_def B_def)
  ultimately show ?case using IH
    by (simp add: power2_eq_square algebra_simps)
qed

lemma abs_dot_le: "length a = length b \<Longrightarrow> \<bar>dot a b\<bar> \<le> vnorm a * vnorm b"
proof -
  assume len: "length a = length b"
  have "\<bar>dot a b\<bar> = sqrt ((dot a b)\<^sup>2)" by simp
  also have "\<dots> \<le> sqrt (dot a a * dot b b)"
    using dot_squared_le [OF len] by (simp only: real_sqrt_le_iff)
  also have "\<dots> = vnorm a * vnorm b" by (simp add: vnorm_def real_sqrt_mult)
  finally show ?thesis .
qed

lemma adot_dot_abs: "adot a b = dot (map abs a) (map abs b)"
proof (induction a arbitrary: b)
  case Nil
  then show ?case by (simp add: adot_def dot_def)
next
  case (Cons x xs)
  then show ?case by (cases b) (simp_all add: adot_def dot_def abs_mult)
qed

lemma dot_abs_self: "dot (map abs a) (map abs a) = dot a a"
  by (induction a) (simp_all add: dot_def)

lemma adot_self: "adot a a = dot a a"
  by (simp add: adot_dot_abs dot_abs_self)

lemma adot_le: "length a = length b \<Longrightarrow> adot a b \<le> vnorm a * vnorm b"
proof -
  assume "length a = length b"
  then have "\<bar>dot (map abs a) (map abs b)\<bar> \<le> vnorm (map abs a) * vnorm (map abs b)"
    by (intro abs_dot_le) simp
  then show ?thesis using adot_nonneg [of a b]
    by (simp add: adot_dot_abs vnorm_def dot_abs_self)
qed

lemma cosineLoop_sums:
  "length xs = length ys \<Longrightarrow>
   cosineLoop xs ys (d, n1, n2) = (dotFrom d xs ys, dotFrom n1 xs xs, dotFrom n2 ys ys)"
  by (induction xs ys arbitrary: d n1 n2 rule: list_induct2) simp_all

lemma dotFrom_zero_error:
  assumes len: "length xs = length ys" and n: "length xs \<le> 2 ^ 20"
    and P: "1 / 2 ^ 990 \<le> P" "P \<le> 2 ^ 990" and A: "adot xs ys \<le> P"
  shows "\<exists>r. dotFrom (Num 0) (map Num xs) (map Num ys) = Num r \<and>
             \<bar>r - dot xs ys\<bar> \<le> (2 * (real (length xs) + 1) / 2 ^ 53 + 1 / 2 ^ 62) * P"
proof -
  define c where "c = 2 * (real (length xs) + 1) / 2 ^ 53"
  have "adot xs ys \<le> 2 ^ 1000"
  proof -
    have "P \<le> 2 ^ 1000" using P(2) by (rule order_trans) simp
    with A show ?thesis by linarith
  qed
  then obtain r where r: "dotFrom (Num 0) (map Num xs) (map Num ys) = Num r"
    "\<bar>r - (0 + dot xs ys)\<bar> \<le>
       2 * (real (0 + length xs) + 1) / 2 ^ 53 * (0 + adot xs ys) + 6 * real (0 + length xs) * tiny"
    using dotFrom_error [of xs ys 0 0 0 0] len n by auto
  have nn: "real (length xs) \<le> 2 ^ 20"
  proof -
    have "real (length xs) \<le> real (2 ^ 20)" using n by (simp only: of_nat_le_iff)
    then show ?thesis by simp
  qed
  have c0: "0 \<le> c" by (simp add: c_def)
  define cA where "cA = c * adot xs ys"
  define cP where "cP = c * P"
  define e where "e = 6 * real (length xs) * tiny"
  define eP where "eP = 1 / 2 ^ 62 * P"
  have "cA \<le> cP" unfolding cA_def cP_def by (rule mult_left_mono [OF A c0])
  moreover have "e \<le> eP"
  proof -
    have "6 * real (length xs) * tiny \<le> 6 * 2 ^ 20 * tiny"
      using nn tiny_pos by simp
    also have "\<dots> \<le> 1 / 2 ^ 62 * (1 / 2 ^ 990)" by (simp add: tiny_def)
    also have "\<dots> \<le> 1 / 2 ^ 62 * P" using P(1) by simp
    finally show ?thesis by (simp only: e_def eP_def)
  qed
  moreover have "\<bar>r - dot xs ys\<bar> \<le> cA + e"
    using r(2) by (simp add: c_def cA_def e_def)
  ultimately have "\<bar>r - dot xs ys\<bar> \<le> cP + eP" by linarith
  also have "\<dots> = (c + 1 / 2 ^ 62) * P"
    by (simp only: cP_def eP_def distrib_right)
  finally have "\<bar>r - dot xs ys\<bar> \<le> (c + 1 / 2 ^ 62) * P" .
  with r(1) show ?thesis by (auto simp: c_def)
qed

lemma cosineSimilarity_error:
  assumes len: "length xs = length ys" and n: "length xs \<le> 2 ^ 20"
    and N1: "1 / 2 ^ 990 \<le> dot xs xs" "dot xs xs \<le> 2 ^ 990"
    and N2: "1 / 2 ^ 990 \<le> dot ys ys" "dot ys ys \<le> 2 ^ 990"
  shows "\<exists>r. cosineSimilarity (map Num xs) (map Num ys) = Num r \<and>
             \<bar>r - dot xs ys / (vnorm xs * vnorm ys)\<bar> \<le> (real (length xs) + 3) / 2 ^ 49"
proof -
  define g where "g = 2 * (real (length xs) + 1) / 2 ^ 53 + 1 / 2 ^ 62"
  define P where "P = vnorm xs * vnorm ys"
  have nn: "real (length xs) \<le> 2 ^ 20"
  proof -
    have "real (length xs) \<le> real (2 ^ 20)" using n by (simp only: of_nat_le_iff)
    then show ?thesis by simp
  qed
  have g: "0 \<le> g" "g \<le> 1 / 2 ^ 10" using nn by (simp_all add: g_def field_simps)
  have S1: "1 / 2 ^ 495 \<le> vnorm xs" "vnorm xs \<le> 2 ^ 495"
    unfolding vnorm_def using N1 by (rule sqrt_range)+
  have S2: "1 / 2 ^ 495 \<le> vnorm ys" "vnorm ys \<le> 2 ^ 495"
    unfolding vnorm_def using N2 by (rule sqrt_range)+
  have S1pos: "0 < vnorm xs" using S1(1) by (rule less_le_trans [rotated]) simp
  have S2pos: "0 < vnorm ys" using S2(1) by (rule less_le_trans [rotated]) simp
  have Plo: "1 / 2 ^ 990 \<le> P"
  proof -
    have "(1 / 2 ^ 495) * (1 / 2 ^ 495) \<le> vnorm xs * vnorm ys"
      by (rule mult_mono) (use S1 S2 S1pos in simp_all)
    moreover have "(1 / 2 ^ 495) * (1 / 2 ^ 495) = (1 / 2 ^ 990 :: real)" by simp
    ultimately show ?thesis by (simp only: P_def)
  qed
  have Phi: "P \<le> 2 ^ 990"
  proof -
    have "vnorm xs * vnorm ys \<le> 2 ^ 495 * 2 ^ 495"
      by (rule mult_mono) (use S1 S2 S2pos in simp_all)
    moreover have "(2::real) ^ 495 * 2 ^ 495 = 2 ^ 990" by simp
    ultimately show ?thesis by (simp only: P_def)
  qed
  obtain d where d: "dotFrom (Num 0) (map Num xs) (map Num ys) = Num d"
    "\<bar>d - dot xs ys\<bar> \<le> g * P"
    using dotFrom_zero_error [OF len n Plo Phi] adot_le [OF len] unfolding g_def P_def by blast
  obtain n1 where n1: "dotFrom (Num 0) (map Num xs) (map Num xs) = Num n1"
    "\<bar>n1 - dot xs xs\<bar> \<le> g * dot xs xs"
    using dotFrom_zero_error [OF refl n N1] adot_self [of xs] unfolding g_def by auto
  have n': "length ys \<le> 2 ^ 20" using n len by simp
  obtain n2 where n2: "dotFrom (Num 0) (map Num ys) (map Num ys) = Num n2"
    "\<bar>n2 - dot ys ys\<bar> \<le> (2 * (real (length ys) + 1) / 2 ^ 53 + 1 / 2 ^ 62) * dot ys ys"
    using dotFrom_zero_error [OF refl n' N2] adot_self [of ys] by auto
  have n2': "\<bar>n2 - dot ys ys\<bar> \<le> g * dot ys ys" using n2(2) len by (simp add: g_def)
  have ed: "\<bar>d - dot xs ys\<bar> \<le> g * (sqrt (dot xs xs) * sqrt (dot ys ys))"
    using d(2) by (simp add: P_def vnorm_def)
  have DP: "\<bar>dot xs ys\<bar> \<le> sqrt (dot xs xs) * sqrt (dot ys ys)"
    using abs_dot_le [OF len] by (simp add: vnorm_def)
  obtain den r where t: "fmul (fsqrt (Num n1)) (fsqrt (Num n2)) = Num den" "den \<noteq> 0"
    "fdiv (Num d) (Num den) = Num r"
    "\<bar>r - dot xs ys / (sqrt (dot xs xs) * sqrt (dot ys ys))\<bar> \<le> 8 * g + 19 / 2 ^ 53"
    using cosine_tail [OF N1 N2 g n1(2) n2' ed DP] by blast
  have loop: "cosineLoop (map Num xs) (map Num ys) (Num 0, Num 0, Num 0) = (Num d, Num n1, Num n2)"
    using len d(1) n1(1) n2(1) by (simp add: cosineLoop_sums)
  have val: "cosineSimilarity (map Num xs) (map Num ys) = Num r"
    using len loop t(1,2,3) by (simp add: cosineSimilarity_def)
  have "8 * g + 19 / 2 ^ 53 \<le> (real (length xs) + 3) / 2 ^ 49"
    by (simp add: g_def field_simps)
  with t(4) have "\<bar>r - dot xs ys / (vnorm xs * vnorm ys)\<bar> \<le> (real (length xs) + 3) / 2 ^ 49"
    by (simp add: vnorm_def)
  with val show ?thesis by blast
qed

subsection \<open>Symmetry\<close>

lemma fmul_commute: "fmul a b = fmul b a"
  by (cases a; cases b) (simp_all add: mult.commute)

lemma cosineLoop_swap:
  "cosineLoop b a (d, n2, n1) =
     (case cosineLoop a b (d, n1, n2) of (d', m1, m2) \<Rightarrow> (d', m2, m1))"
proof (induction a arbitrary: b d n1 n2)
  case Nil
  then show ?case by simp
next
  case (Cons x xs)
  show ?case
  proof (cases b)
    case Nil
    then show ?thesis by simp
  next
    case (Cons y ys)
    then show ?thesis using Cons.IH [of ys] by (simp add: fmul_commute [of y x])
  qed
qed

lemma cosineSimilarity_commute: "cosineSimilarity a b = cosineSimilarity b a"
proof (cases "length a = length b")
  case True
  obtain d m1 m2 where r: "cosineLoop a b (Num 0, Num 0, Num 0) = (d, m1, m2)"
    by (cases "cosineLoop a b (Num 0, Num 0, Num 0)") auto
  then have "cosineLoop b a (Num 0, Num 0, Num 0) = (d, m2, m1)"
    using cosineLoop_swap [of b a "Num 0" "Num 0" "Num 0"] by simp
  with r True show ?thesis
    by (simp add: cosineSimilarity_def fmul_commute [of "fsqrt m2" "fsqrt m1"])
next
  case False
  then show ?thesis by (simp add: cosineSimilarity_def)
qed

subsection \<open>A vector of zeros\<close>

lemma round64_0: "round64 0 = Num 0"
  by (simp add: round64_def)

lemma round64_nonneg:
  assumes "0 \<le> x" "round64 x = Num r"
  shows "0 \<le> r"
proof (cases "x = 0")
  case True
  then show ?thesis using assms(2) by (simp add: round64_def)
next
  case False
  have "0 \<le> x / ulp x" using assms(1) ulp_pos [of x] by simp
  then have "0 \<le> roundEven (x / ulp x)" using roundEven_ge [of 0 "x / ulp x"] by simp
  then have "0 \<le> of_int (roundEven (x / ulp x)) * ulp x"
    using ulp_pos [of x] by simp
  then show ?thesis using assms(2) False by (simp add: round64_unfold split: if_splits)
qed

lemma fadd_not_finite: "\<not> isFinite a \<Longrightarrow> \<not> isFinite (fadd a b)"
  by (cases a; cases b) simp_all

lemma dotFrom_not_finite: "\<not> isFinite acc \<Longrightarrow> \<not> isFinite (dotFrom acc xs ys)"
proof (induction acc xs ys rule: dotFrom.induct)
  case (1 acc x xs y ys)
  then show ?case by (simp add: fadd_not_finite)
qed simp_all

lemma dotFrom_self_nonneg:
  "0 \<le> d \<Longrightarrow> dotFrom (Num d) (map Num ys) (map Num ys) = Num r \<Longrightarrow> 0 \<le> r"
proof (induction ys arbitrary: d)
  case Nil
  then show ?case by simp
next
  case (Cons y ys)
  let ?acc = "fadd (Num d) (fmul (Num y) (Num y))"
  have fin: "isFinite ?acc"
  proof (rule ccontr)
    assume "\<not> isFinite ?acc"
    then have "\<not> isFinite (dotFrom ?acc (map Num ys) (map Num ys))" by (rule dotFrom_not_finite)
    then show False using Cons.prems(2) by simp
  qed
  then obtain d' where d': "?acc = Num d'" by (cases ?acc) simp_all
  then obtain p where p: "round64 (y * y) = Num p"
    by (cases "round64 (y * y)") simp_all
  have "0 \<le> p" using round64_nonneg [OF _ p] by simp
  then have "0 \<le> d'" using d' p Cons.prems(1) round64_nonneg [of "d + p" d'] by simp
  then show ?case using Cons.IH [of d'] Cons.prems(2) d' by simp
qed

lemma dot_self_zero: "dot xs xs = 0 \<Longrightarrow> \<forall>x\<in>set xs. x = 0"
proof (induction xs)
  case Nil
  then show ?case by simp
next
  case (Cons x xs)
  have "x * x + dot xs xs = 0" using Cons.prems by (simp add: dot_Cons)
  moreover have "0 \<le> x * x" "0 \<le> dot xs xs" by (simp_all add: dot_self_nonneg)
  ultimately have "x * x = 0" "dot xs xs = 0" by linarith+
  then show ?case using Cons.IH by simp
qed

lemma dotFrom_zeros:
  "\<forall>x\<in>set xs. x = 0 \<Longrightarrow> dotFrom (Num 0) (map Num xs) (map Num xs) = Num 0"
  by (induction xs) (simp_all add: round64_0)

lemma cosineSimilarity_zero:
  assumes len: "length xs = length ys" and n: "length xs \<le> 2 ^ 20"
    and z: "vnorm xs = 0" and N: "dot ys ys \<le> 2 ^ 990"
  shows "cosineSimilarity (map Num xs) (map Num ys) = Num 0"
proof -
  have "dot xs xs = 0" using z by (simp add: vnorm_def)
  then have n1: "dotFrom (Num 0) (map Num xs) (map Num xs) = Num 0"
    using dot_self_zero dotFrom_zeros by blast
  have n': "0 + length ys \<le> 2 ^ 20" using n len by simp
  have "0 + adot ys ys \<le> 2 ^ 1000"
  proof -
    have "dot ys ys \<le> 2 ^ 1000" using N by (rule order_trans) simp
    then show ?thesis by (simp add: adot_self)
  qed
  then obtain n2 where n2: "dotFrom (Num 0) (map Num ys) (map Num ys) = Num n2"
    "\<bar>n2 - (0 + dot ys ys)\<bar> \<le>
       2 * (real (0 + length ys) + 1) / 2 ^ 53 * (0 + adot ys ys) + 6 * real (0 + length ys) * tiny"
    using dotFrom_error [OF refl n', of 0 0 0] by auto
  have n2pos: "0 \<le> n2" using dotFrom_self_nonneg [OF _ n2(1)] by simp
  define c where "c = 2 * (real (length ys) + 1) / 2 ^ 53"
  define N2 where "N2 = dot ys ys"
  have nn: "real (length ys) \<le> 2 ^ 20"
  proof -
    have "real (length ys) \<le> real (2 ^ 20)" using n len by (simp only: of_nat_le_iff)
    then show ?thesis by simp
  qed
  have c: "0 \<le> c" "c \<le> 1" using nn by (simp_all add: c_def field_simps)
  have N2: "0 \<le> N2" "N2 \<le> 2 ^ 990" using N by (simp_all add: N2_def dot_self_nonneg)
  have cN: "c * N2 \<le> N2" using mult_right_mono [of c 1 N2] c N2 by simp
  have e: "6 * real (length ys) * tiny \<le> 1"
  proof -
    have "6 * real (length ys) * tiny \<le> 6 * 2 ^ 20 * tiny" using nn tiny_pos by simp
    also have "\<dots> \<le> 1" by (simp add: tiny_def)
    finally show ?thesis .
  qed
  have "\<bar>n2 - N2\<bar> \<le> c * N2 + 6 * real (length ys) * tiny"
    using n2(2) by (simp add: c_def N2_def adot_self)
  then have "n2 \<le> 2 * N2 + 1" using cN e by linarith
  also have "\<dots> \<le> 2 * 2 ^ 990 + 1" using N2 by simp
  also have "\<dots> \<le> ((2::real) ^ 500)\<^sup>2" by (simp add: power2_eq_square)
  finally have "sqrt n2 \<le> 2 ^ 500" using n2pos by (auto intro: real_le_lsqrt)
  moreover have "0 \<le> sqrt n2" using n2pos by simp
  moreover have "(2::real) ^ 500 \<le> 2 ^ 1023" by simp
  ultimately have "\<bar>sqrt n2\<bar> \<le> 2 ^ 1023" by linarith
  then obtain s where s: "round64 (sqrt n2) = Num s" using round64_abs_err by blast
  have loop: "cosineLoop (map Num xs) (map Num ys) (Num 0, Num 0, Num 0) =
      (dotFrom (Num 0) (map Num xs) (map Num ys), Num 0, Num n2)"
    using len n1 n2(1) by (simp add: cosineLoop_sums)
  have "fmul (fsqrt (Num 0)) (fsqrt (Num n2)) = Num 0"
    using s n2pos by (simp add: round64_0)
  then show ?thesis using len loop by (simp add: cosineSimilarity_def)
qed

subsection \<open>The multiples of the smallest positive number\<close>

lemma expo_ge: "- 1022 \<le> expo x"
  by (simp add: expo_def)

lemma ulp_grid: "\<exists>k::nat. ulp x = 2 ^ k / 2 ^ 1074"
proof -
  define k where "k = nat (expo x + 1022)"
  have e: "expo x - 52 = int k + (- 1074)" using expo_ge [of x] by (simp add: k_def)
  have "ulp x = pow2 (int k + (- 1074))" by (simp only: ulp_def e)
  also have "\<dots> = pow2 (int k) * pow2 (- 1074)" by (rule pow2_add)
  finally have "ulp x = 2 ^ k / 2 ^ 1074" by (simp add: pow2_def)
  then show ?thesis by blast
qed

lemma round64_grid:
  assumes "round64 x = Num r"
  shows "onGrid r"
proof (cases "x = 0")
  case True
  then have "r = of_int 0 / 2 ^ 1074" using assms by (simp add: round64_def)
  then show ?thesis unfolding onGrid_def by blast
next
  case False
  obtain k :: nat where k: "ulp x = 2 ^ k / 2 ^ 1074" using ulp_grid by blast
  have "r = of_int (roundEven (x / ulp x)) * ulp x"
    using assms False by (simp add: round64_unfold split: if_splits)
  then have "r = of_int (roundEven (x / ulp x) * 2 ^ k) / 2 ^ 1074" by (simp add: k)
  then show ?thesis unfolding onGrid_def by blast
qed

lemma onGrid_0: "onGrid 0"
  unfolding onGrid_def by (rule exI [of _ 0]) simp

lemma cosineSimilarity_grid:
  assumes "cosineSimilarity a b = Num r"
  shows "onGrid r"
proof (cases "length a = length b")
  case False
  then have "r = 0" using assms by (simp add: cosineSimilarity_def)
  then show ?thesis by (simp add: onGrid_0)
next
  case True
  obtain d n1 n2 where l: "cosineLoop a b (Num 0, Num 0, Num 0) = (d, n1, n2)"
    by (cases "cosineLoop a b (Num 0, Num 0, Num 0)") auto
  define den where "den = fmul (fsqrt n1) (fsqrt n2)"
  show ?thesis
  proof (cases "den = Num 0")
    case True
    then have "r = 0" using assms \<open>length a = length b\<close> l
      by (simp add: cosineSimilarity_def den_def)
    then show ?thesis by (simp add: onGrid_0)
  next
    case False
    then have q: "fdiv d den = Num r" using assms \<open>length a = length b\<close> l
      by (simp add: cosineSimilarity_def den_def)
    show ?thesis
    proof (cases d)
      case (Num x)
      show ?thesis
      proof (cases den)
        case (Num y)
        then have "round64 (x / y) = Num r" using q \<open>d = Num x\<close> by (simp split: if_splits)
        then show ?thesis by (rule round64_grid)
      next
        case PosInf
        then have "r = 0" using q \<open>d = Num x\<close> by simp
        then show ?thesis by (simp add: onGrid_0)
      next
        case NegInf
        then have "r = 0" using q \<open>d = Num x\<close> by simp
        then show ?thesis by (simp add: onGrid_0)
      next
        case NaN
        then show ?thesis using q \<open>d = Num x\<close> by simp
      qed
    next
      case PosInf
      then show ?thesis using q by (cases den) (simp_all split: if_splits)
    next
      case NegInf
      then show ?thesis using q by (cases den) (simp_all split: if_splits)
    next
      case NaN
      then show ?thesis using q by simp
    qed
  qed
qed

lemma round64_positive:
  assumes "1 / 2 ^ 1074 \<le> z"
  shows "positive (round64 z)"
proof -
  have zpos: "0 < z" using assms by (rule less_le_trans [rotated]) simp
  then have nz: "z \<noteq> 0" by simp
  have "ulp z \<le> max (\<bar>z\<bar> / 2 ^ 52) (1 / 2 ^ 1074)" by (rule ulp_le [OF nz])
  moreover have "\<bar>z\<bar> / 2 ^ 52 \<le> z" using zpos by (simp add: field_simps)
  ultimately have "ulp z \<le> z" using assms by (simp add: max_def split: if_splits)
  then have "1 \<le> z / ulp z" using ulp_pos [of z] by (simp add: field_simps)
  then have "1 \<le> roundEven (z / ulp z)" using roundEven_ge [of 1 "z / ulp z"] by simp
  then have "0 < of_int (roundEven (z / ulp z)) * ulp z" using ulp_pos [of z] by simp
  then show ?thesis using nz zpos by (simp add: round64_unfold)
qed

lemma round64_not_positive:
  assumes "z \<le> 0"
  shows "\<not> positive (round64 z)"
proof (cases "z = 0")
  case True
  then show ?thesis by (simp add: round64_0)
next
  case False
  have "z / ulp z \<le> 0" using assms ulp_pos [of z] by (simp add: field_simps)
  then have "roundEven (z / ulp z) \<le> 0" using roundEven_le [of "z / ulp z" 0] by simp
  then have "of_int (roundEven (z / ulp z)) * ulp z \<le> 0"
    using ulp_pos [of z] by (simp add: mult_le_0_iff)
  then show ?thesis using False assms by (simp add: round64_unfold)
qed

lemma positive_fsub:
  assumes "onGrid a" "onGrid b"
  shows "positive (fsub (Num b) (Num a)) = (a < b)"
proof -
  obtain m k :: int where m: "a = of_int m / 2 ^ 1074" and k: "b = of_int k / 2 ^ 1074"
    using assms unfolding onGrid_def by blast
  have eq: "fsub (Num b) (Num a) = round64 (b - a)" by (simp add: fsub_def)
  show ?thesis
  proof (cases "a < b")
    case True
    then have "m < k" using m k by (simp add: divide_less_cancel)
    then have "1 \<le> k - m" by simp
    then have "(1::real) \<le> of_int (k - m)" by (simp only: of_int_1_le_iff)
    then have "1 / 2 ^ 1074 \<le> b - a"
      using m k by (simp add: diff_divide_distrib [symmetric] divide_right_mono)
    then show ?thesis using True eq round64_positive by simp
  next
    case False
    then have "b - a \<le> 0" by simp
    then show ?thesis using False eq round64_not_positive by simp
  qed
qed

subsection \<open>Values at concrete vectors\<close>

lemma round64_nearest:
  fixes x :: real and e n :: int
  assumes "pow2 e \<le> x" "x < pow2 (e + 1)" "- 1022 \<le> e"
    and "\<bar>x / pow2 (e - 52) - of_int n\<bar> < 1 / 2"
  shows "round64 x =
           (if pow2 1024 \<le> \<bar>of_int n * pow2 (e - 52)\<bar> then PosInf
            else Num (of_int n * pow2 (e - 52)))"
proof -
  have pos: "0 < x" using assms(1) pow2_pos [of e] by linarith
  have "\<lfloor>log 2 x\<rfloor> = e"
    using assms(1,2) pos by (simp add: floor_log_eq_powr_iff pow2_powr)
  then have "expo x = e" using pos assms(3) by (simp add: expo_def)
  then have u: "ulp x = pow2 (e - 52)" by (simp add: ulp_def)
  have r: "roundEven (x / pow2 (e - 52)) = n" by (rule roundEven_unique [OF assms(4)])
  show ?thesis using pos by (simp add: round64_unfold u r)
qed

lemma round64_1: "round64 1 = Num 1"
  using round64_nearest [of 0 1 "2 ^ 52"] by (simp add: pow2_def)

lemma round64_2: "round64 2 = Num 2"
  using round64_nearest [of 1 2 "2 ^ 52"] by (simp add: pow2_def)

lemma round64_3: "round64 3 = Num 3"
  using round64_nearest [of 1 3 "3 * 2 ^ 51"] by (simp add: pow2_def)

lemma round64_6: "round64 6 = Num 6"
  using round64_nearest [of 2 6 "3 * 2 ^ 51"] by (simp add: pow2_def)

lemma round64_9: "round64 9 = Num 9"
  using round64_nearest [of 3 9 "9 * 2 ^ 49"] by (simp add: pow2_def)

lemma round64_18: "round64 18 = Num 18"
  using round64_nearest [of 4 18 "9 * 2 ^ 49"] by (simp add: pow2_def)

lemma cosineSimilarity_eval:
  assumes "length a = length b" "cosineLoop a b (Num 0, Num 0, Num 0) = (d, n1, n2)"
    "fsqrt n1 = s1" "fsqrt n2 = s2" "fmul s1 s2 = den" "den \<noteq> Num 0" "fdiv d den = q"
  shows "cosineSimilarity a b = q"
  using assms by (simp add: cosineSimilarity_def)

text \<open>\<open>[1]\<close> with itself: every intermediate result is \<open>1\<close>.\<close>

lemma cosineSimilarity_one: "cosineSimilarity [Num 1] [Num 1] = Num 1"
  by (simp add: cosineSimilarity_def round64_1)

text \<open>
  \<open>[1, 1, 1]\<close> with itself: the three sums are \<open>3\<close>, \<open>sqrt 3\<close> rounds to
  \<open>7800463371553962 / 2^52\<close>, its square rounds to \<open>3 - 2^-51\<close>, and \<open>3 / (3 - 2^-51)\<close> rounds
  to \<open>1 + 2^-52\<close>.
\<close>

lemma cosineLoop_ones:
  "cosineLoop [Num 1, Num 1, Num 1] [Num 1, Num 1, Num 1] (Num 0, Num 0, Num 0) = (Num 3, Num 3, Num 3)"
  by (simp add: round64_1 round64_2 round64_3)

lemma sqrt3_lower: "(7800463371553962 - 1 / 2) / 2 ^ 52 < sqrt (3::real)"
  by (rule real_less_rsqrt) (simp add: power2_eq_square)

lemma sqrt3_upper: "sqrt (3::real) < (7800463371553962 + 1 / 2) / 2 ^ 52"
  by (rule real_less_lsqrt) (simp_all add: power2_eq_square)

lemma fsqrt_3: "fsqrt (Num 3) = Num (7800463371553962 / 2 ^ 52)"
proof -
  have a: "pow2 0 \<le> sqrt (3::real)"
    using sqrt3_lower by (simp add: pow2_def)
  have b: "sqrt (3::real) < pow2 (0 + 1)"
    using sqrt3_upper by (simp add: pow2_def)
  have c: "\<bar>sqrt 3 / pow2 (0 - 52) - of_int 7800463371553962\<bar> < 1 / 2"
  proof -
    have "7800463371553962 - 1 / 2 < sqrt 3 * 2 ^ 52" "sqrt 3 * 2 ^ 52 < 7800463371553962 + 1 / 2"
      using sqrt3_lower sqrt3_upper by (simp_all add: field_simps)
    moreover have "sqrt 3 / pow2 (0 - 52) = sqrt 3 * 2 ^ 52" by (simp add: pow2_def)
    ultimately show ?thesis by (simp only: of_int_numeral)
  qed
  show ?thesis using round64_nearest [OF a b _ c] by (simp add: pow2_def)
qed

lemma fmul_sqrt3:
  "fmul (Num (7800463371553962 / 2 ^ 52)) (Num (7800463371553962 / 2 ^ 52)) =
     Num (6755399441055743 / 2 ^ 51)"
  using round64_nearest [of 1 "7800463371553962 / 2 ^ 52 * (7800463371553962 / 2 ^ 52)" 6755399441055743]
  by (simp add: pow2_def abs_less_iff)

lemma fdiv_3: "fdiv (Num 3) (Num (6755399441055743 / 2 ^ 51)) = Num (4503599627370497 / 2 ^ 52)"
  using round64_nearest [of 0 "3 / (6755399441055743 / 2 ^ 51)" 4503599627370497]
  by (simp add: pow2_def abs_less_iff)

lemma cosineSimilarity_ones:
  "cosineSimilarity [Num 1, Num 1, Num 1] [Num 1, Num 1, Num 1] = Num (1 + 1 / 2 ^ 52)"
proof -
  have "cosineSimilarity [Num 1, Num 1, Num 1] [Num 1, Num 1, Num 1] = Num (4503599627370497 / 2 ^ 52)"
    by (rule cosineSimilarity_eval [OF _ cosineLoop_ones fsqrt_3 fsqrt_3 fmul_sqrt3 _ fdiv_3]) simp_all
  then show ?thesis by simp
qed

text \<open>
  \<open>[1, 1]\<close> with itself and with \<open>[3, 3]\<close>: \<open>sqrt 2\<close> rounds to \<open>6369051672525773 / 2^52\<close>, its
  square rounds to \<open>2 + 2^-51\<close>, and \<open>2 / (2 + 2^-51)\<close> rounds to \<open>1 - 2^-52\<close>; \<open>sqrt 18\<close> rounds
  to \<open>4776788754394329 / 2^50\<close>, its product with the rounded \<open>sqrt 2\<close> rounds to \<open>6\<close>, and
  \<open>6 / 6\<close> is \<open>1\<close>.
\<close>

lemma sqrt2_lower: "(6369051672525773 - 1 / 2) / 2 ^ 52 < sqrt (2::real)"
  by (rule real_less_rsqrt) (simp add: power2_eq_square)

lemma sqrt2_upper: "sqrt (2::real) < (6369051672525773 + 1 / 2) / 2 ^ 52"
  by (rule real_less_lsqrt) (simp_all add: power2_eq_square)

lemma fsqrt_2: "fsqrt (Num 2) = Num (6369051672525773 / 2 ^ 52)"
proof -
  have a: "pow2 0 \<le> sqrt (2::real)"
    using sqrt2_lower by (simp add: pow2_def)
  have b: "sqrt (2::real) < pow2 (0 + 1)"
    using sqrt2_upper by (simp add: pow2_def)
  have c: "\<bar>sqrt 2 / pow2 (0 - 52) - of_int 6369051672525773\<bar> < 1 / 2"
  proof -
    have "6369051672525773 - 1 / 2 < sqrt 2 * 2 ^ 52" "sqrt 2 * 2 ^ 52 < 6369051672525773 + 1 / 2"
      using sqrt2_lower sqrt2_upper by (simp_all add: field_simps)
    moreover have "sqrt 2 / pow2 (0 - 52) = sqrt 2 * 2 ^ 52" by (simp add: pow2_def)
    ultimately show ?thesis by (simp only: of_int_numeral)
  qed
  show ?thesis using round64_nearest [OF a b _ c] by (simp add: pow2_def)
qed

lemma sqrt18_lower: "(4776788754394329 - 1 / 2) / 2 ^ 50 < sqrt (18::real)"
  by (rule real_less_rsqrt) (simp add: power2_eq_square)

lemma sqrt18_upper: "sqrt (18::real) < (4776788754394329 + 1 / 2) / 2 ^ 50"
  by (rule real_less_lsqrt) (simp_all add: power2_eq_square)

lemma fsqrt_18: "fsqrt (Num 18) = Num (4776788754394329 / 2 ^ 50)"
proof -
  have a: "pow2 2 \<le> sqrt (18::real)"
    using sqrt18_lower by (simp add: pow2_def)
  have b: "sqrt (18::real) < pow2 (2 + 1)"
    using sqrt18_upper by (simp add: pow2_def)
  have c: "\<bar>sqrt 18 / pow2 (2 - 52) - of_int 4776788754394329\<bar> < 1 / 2"
  proof -
    have "4776788754394329 - 1 / 2 < sqrt 18 * 2 ^ 50" "sqrt 18 * 2 ^ 50 < 4776788754394329 + 1 / 2"
      using sqrt18_lower sqrt18_upper by (simp_all add: field_simps)
    moreover have "sqrt 18 / pow2 (2 - 52) = sqrt 18 * 2 ^ 50" by (simp add: pow2_def)
    ultimately show ?thesis by (simp only: of_int_numeral)
  qed
  show ?thesis using round64_nearest [OF a b _ c] by (simp add: pow2_def)
qed

lemma fmul_sqrt2:
  "fmul (Num (6369051672525773 / 2 ^ 52)) (Num (6369051672525773 / 2 ^ 52)) =
     Num (4503599627370497 / 2 ^ 51)"
  using round64_nearest [of 1 "6369051672525773 / 2 ^ 52 * (6369051672525773 / 2 ^ 52)" 4503599627370497]
  by (simp add: pow2_def abs_less_iff)

lemma fdiv_2: "fdiv (Num 2) (Num (4503599627370497 / 2 ^ 51)) = Num (9007199254740990 / 2 ^ 53)"
  using round64_nearest [of "- 1" "2 / (4503599627370497 / 2 ^ 51)" 9007199254740990]
  by (simp add: pow2_def abs_less_iff)

lemma fmul_sqrt2_sqrt18:
  "fmul (Num (6369051672525773 / 2 ^ 52)) (Num (4776788754394329 / 2 ^ 50)) = Num 6"
  using round64_nearest [of 2 "6369051672525773 / 2 ^ 52 * (4776788754394329 / 2 ^ 50)" 6755399441055744]
  by (simp add: pow2_def abs_less_iff)

lemma cosineLoop_pair:
  "cosineLoop [Num 1, Num 1] [Num 1, Num 1] (Num 0, Num 0, Num 0) = (Num 2, Num 2, Num 2)"
  by (simp add: round64_1 round64_2)

lemma cosineLoop_parallel:
  "cosineLoop [Num 1, Num 1] [Num 3, Num 3] (Num 0, Num 0, Num 0) = (Num 6, Num 2, Num 18)"
  by (simp add: round64_1 round64_2 round64_3 round64_6 round64_9 round64_18)

lemma cosineSimilarity_pair:
  "cosineSimilarity [Num 1, Num 1] [Num 1, Num 1] = Num (1 - 1 / 2 ^ 52)"
proof -
  have "cosineSimilarity [Num 1, Num 1] [Num 1, Num 1] = Num (9007199254740990 / 2 ^ 53)"
    by (rule cosineSimilarity_eval [OF _ cosineLoop_pair fsqrt_2 fsqrt_2 fmul_sqrt2 _ fdiv_2]) simp_all
  then show ?thesis by simp
qed

lemma cosineSimilarity_parallel:
  "cosineSimilarity [Num 1, Num 1] [Num 3, Num 3] = Num 1"
proof -
  have "fdiv (Num 6) (Num 6) = Num 1" by (simp add: round64_1)
  then show ?thesis
    by (intro cosineSimilarity_eval [OF _ cosineLoop_parallel fsqrt_2 fsqrt_18 fmul_sqrt2_sqrt18]) simp_all
qed

text \<open>Squares that overflow: \<open>2^700\<close> and \<open>2^600\<close>.\<close>

lemma fmul_overflow_700: "fmul (Num (2 ^ 700)) (Num (2 ^ 700)) = PosInf"
  using round64_nearest [of 1400 "2 ^ 700 * 2 ^ 700" "2 ^ 52"] by (simp add: pow2_def)

lemma fmul_overflow_600: "fmul (Num (2 ^ 600)) (Num (2 ^ 600)) = PosInf"
  using round64_nearest [of 1200 "2 ^ 600 * 2 ^ 600" "2 ^ 52"] by (simp add: pow2_def)

lemma cosineSimilarity_zero_overflow: "cosineSimilarity [Num 0] [Num (2 ^ 700)] = NaN"
proof -
  have "cosineLoop [Num 0] [Num (2 ^ 700)] (Num 0, Num 0, Num 0) = (Num 0, Num 0, PosInf)"
    using fmul_overflow_700 by (simp add: round64_0)
  then show ?thesis by (simp add: cosineSimilarity_def round64_0 scaleInf_def)
qed

lemma cosineSimilarity_overflow: "cosineSimilarity [Num (2 ^ 600)] [Num (2 ^ 600)] = NaN"
proof -
  have "cosineLoop [Num (2 ^ 600)] [Num (2 ^ 600)] (Num 0, Num 0, Num 0) = (PosInf, PosInf, PosInf)"
    using fmul_overflow_600 by simp
  then show ?thesis by (simp add: cosineSimilarity_def)
qed

text \<open>A square that underflows: \<open>2^-600\<close>.\<close>

lemma round64_tiny:
  assumes "x \<noteq> 0" "\<bar>x\<bar> < 1 / 2 ^ 1075"
  shows "round64 x = Num 0"
proof -
  have pos: "0 < \<bar>x\<bar>" using assms(1) by simp
  have "(1 / 2 ^ 1075 :: real) \<le> pow2 (- 1022)" by (simp add: pow2_def)
  then have "\<bar>x\<bar> < 2 powr of_int (- 1022)" using assms(2) by (simp add: pow2_powr)
  then have "log 2 \<bar>x\<bar> < of_int (- 1022)" using pos by (simp add: log_less_iff)
  then have "\<lfloor>log 2 \<bar>x\<bar>\<rfloor> < - 1022" by (simp add: floor_less_iff)
  then have "expo x = - 1022" by (simp add: expo_def)
  then have u: "ulp x = 1 / 2 ^ 1074" by (simp add: ulp_def pow2_def)
  have "\<bar>x\<bar> * 2 ^ 1074 < 1 / 2" using assms(2) by (simp add: field_simps)
  then have "\<bar>x / ulp x - of_int 0\<bar> < 1 / 2" by (simp add: u abs_mult)
  then have "roundEven (x / ulp x) = 0" by (rule roundEven_unique)
  then show ?thesis using assms(1) by (simp add: round64_unfold pow2_def)
qed

lemma fmul_underflow: "fmul (Num (1 / 2 ^ 600)) (Num (1 / 2 ^ 600)) = Num 0"
  using round64_tiny [of "1 / 2 ^ 600 * (1 / 2 ^ 600)"] by simp

lemma cosineSimilarity_underflow: "cosineSimilarity [Num (1 / 2 ^ 600)] [Num (1 / 2 ^ 600)] = Num 0"
proof -
  have "cosineLoop [Num (1 / 2 ^ 600)] [Num (1 / 2 ^ 600)] (Num 0, Num 0, Num 0) = (Num 0, Num 0, Num 0)"
    using fmul_underflow by (simp add: round64_0)
  then show ?thesis by (simp add: cosineSimilarity_def round64_0)
qed

subsection \<open>\<open>cosineSimilarity\<close>: the value\<close>

lemma vnorm_range:
  assumes "1 / 2 ^ 495 \<le> vnorm xs" "vnorm xs \<le> 2 ^ 495"
  shows "1 / 2 ^ 990 \<le> dot xs xs" "dot xs xs \<le> 2 ^ 990"
proof -
  have sq: "dot xs xs = (vnorm xs)\<^sup>2" by (simp add: vnorm_def dot_self_nonneg)
  have "(1 / 2 ^ 495)\<^sup>2 \<le> (vnorm xs)\<^sup>2"
    by (rule power_mono [OF assms(1)]) simp
  moreover have "(1 / 2 ^ 495)\<^sup>2 = (1 / 2 ^ 990 :: real)" by (simp add: power2_eq_square)
  ultimately show "1 / 2 ^ 990 \<le> dot xs xs" by (simp only: sq)
  have "0 \<le> vnorm xs" by (simp add: vnorm_def dot_self_nonneg)
  then have "(vnorm xs)\<^sup>2 \<le> (2 ^ 495)\<^sup>2" by (rule power_mono [OF assms(2)])
  moreover have "((2::real) ^ 495)\<^sup>2 = 2 ^ 990" by (simp add: power2_eq_square)
  ultimately show "dot xs xs \<le> 2 ^ 990" by (simp only: sq)
qed

lemma vnorm_upper:
  assumes "vnorm xs \<le> 2 ^ 495"
  shows "dot xs xs \<le> 2 ^ 990"
proof -
  have sq: "dot xs xs = (vnorm xs)\<^sup>2" by (simp add: vnorm_def dot_self_nonneg)
  have "0 \<le> vnorm xs" by (simp add: vnorm_def dot_self_nonneg)
  then have "(vnorm xs)\<^sup>2 \<le> (2 ^ 495)\<^sup>2" by (rule power_mono [OF assms])
  moreover have "((2::real) ^ 495)\<^sup>2 = 2 ^ 990" by (simp add: power2_eq_square)
  ultimately show "dot xs xs \<le> 2 ^ 990" by (simp only: sq)
qed

lemma cosineSimilarity_in_range:
  assumes "length xs = length ys" "length xs \<le> 2 ^ 20"
    "1 / 2 ^ 495 \<le> vnorm xs" "vnorm xs \<le> 2 ^ 495" "1 / 2 ^ 495 \<le> vnorm ys" "vnorm ys \<le> 2 ^ 495"
  shows "\<exists>r. cosineSimilarity (map Num xs) (map Num ys) = Num r \<and>
             \<bar>r - dot xs ys / (vnorm xs * vnorm ys)\<bar> \<le> (real (length xs) + 3) / 2 ^ 49"
  using assms by (intro cosineSimilarity_error vnorm_range)

text \<open>
  C4, as stated, has the similarity \<open>0\<close> whenever one of the norms is \<open>0\<close>, and
  \<open>dot a b / (|a| * |b|)\<close> when both norms are not \<open>0\<close>, for all vectors. With \<open>a = [0]\<close> and
  \<open>b = [2^700]\<close> the lengths agree and the norm of \<open>a\<close> is \<open>0\<close>, but the square of \<open>2^700\<close>
  overflows: \<open>norm2\<close> is \<open>Infinity\<close>, the denominator \<open>0 * Infinity\<close> is NaN, which is not
  \<open>=== 0\<close>, and the result \<open>0 / NaN\<close> is NaN. With \<open>a = b = [2^-600]\<close> the norms are not \<open>0\<close>
  and the quotient is \<open>1\<close>, but the squares underflow to \<open>0\<close> and the result is \<open>0\<close>.
\<close>

theorem cosineSimilarity_nan_counterexample:
  "length [Num 0] = length [Num (2 ^ 700)] \<and> vnorm [0] = 0 \<and>
   cosineSimilarity [Num 0] [Num (2 ^ 700)] = NaN \<and>
   cosineSimilarity [Num 0] [Num (2 ^ 700)] \<noteq> Num 0 \<and>
   vnorm [1 / 2 ^ 600] \<noteq> 0 \<and>
   dot [1 / 2 ^ 600] [1 / 2 ^ 600] / (vnorm [1 / 2 ^ 600] * vnorm [1 / 2 ^ 600]) = 1 \<and>
   cosineSimilarity [Num (1 / 2 ^ 600)] [Num (1 / 2 ^ 600)] = Num 0"
proof -
  have a: "length [Num 0] = length [Num (2 ^ 700)]" by simp
  have b: "vnorm [0] = 0" by (simp add: vnorm_def dot_def)
  have c: "cosineSimilarity [Num 0] [Num (2 ^ 700)] = NaN" by (rule cosineSimilarity_zero_overflow)
  have d: "cosineSimilarity [Num 0] [Num (2 ^ 700)] \<noteq> Num 0" unfolding c by simp
  have e: "vnorm [1 / 2 ^ 600] \<noteq> 0" by (simp add: vnorm_def dot_def)
  have sq: "dot [1 / 2 ^ 600] [1 / 2 ^ 600] = vnorm [1 / 2 ^ 600] * vnorm [1 / 2 ^ 600]"
    by (simp add: vnorm_def dot_self_nonneg)
  have "vnorm [1 / 2 ^ 600] * vnorm [1 / 2 ^ 600] \<noteq> 0" using e by simp
  then have f: "dot [1 / 2 ^ 600] [1 / 2 ^ 600] / (vnorm [1 / 2 ^ 600] * vnorm [1 / 2 ^ 600]) = 1"
    unfolding sq by (rule divide_self)
  have g: "cosineSimilarity [Num (1 / 2 ^ 600)] [Num (1 / 2 ^ 600)] = Num 0"
    by (rule cosineSimilarity_underflow)
  show ?thesis using a b c d e f g by blast
qed

text \<open>
  C4, amended. \<open>cosineSimilarity\<close> is total (it raises no error), and returns \<open>0\<close> when the
  lengths differ. For vectors of finite numbers of the same length, at most \<open>2^20\<close>:
  when one of the norms is \<open>0\<close> and the other at most \<open>2^495\<close>, it returns \<open>0\<close>; when both
  norms lie between \<open>2^-495\<close> and \<open>2^495\<close>, it returns a finite number within
  \<open>(n + 3) / 2^49\<close> of \<open>dot a b / (|a| * |b|)\<close>, with \<open>n\<close> the length. (Outside these bounds the
  sums of squares can overflow or underflow, and the result can be NaN, or \<open>0\<close> for vectors
  of nonzero norm.)
\<close>

theorem cosineSimilarity_value:
  "(length a \<noteq> length b \<longrightarrow> cosineSimilarity a b = Num 0) \<and>
   (length xs = length ys \<and> length xs \<le> 2 ^ 20 \<and>
    (vnorm xs = 0 \<and> vnorm ys \<le> 2 ^ 495 \<or> vnorm ys = 0 \<and> vnorm xs \<le> 2 ^ 495) \<longrightarrow>
      cosineSimilarity (map Num xs) (map Num ys) = Num 0) \<and>
   (length xs = length ys \<and> length xs \<le> 2 ^ 20 \<and>
    1 / 2 ^ 495 \<le> vnorm xs \<and> vnorm xs \<le> 2 ^ 495 \<and>
    1 / 2 ^ 495 \<le> vnorm ys \<and> vnorm ys \<le> 2 ^ 495 \<longrightarrow>
      (\<exists>r. cosineSimilarity (map Num xs) (map Num ys) = Num r \<and>
           \<bar>r - dot xs ys / (vnorm xs * vnorm ys)\<bar> \<le> (real (length xs) + 3) / 2 ^ 49))"
proof -
  have a: "length a \<noteq> length b \<longrightarrow> cosineSimilarity a b = Num 0"
    by (simp add: cosineSimilarity_def)
  have b: "length xs = length ys \<and> length xs \<le> 2 ^ 20 \<and>
      (vnorm xs = 0 \<and> vnorm ys \<le> 2 ^ 495 \<or> vnorm ys = 0 \<and> vnorm xs \<le> 2 ^ 495) \<longrightarrow>
      cosineSimilarity (map Num xs) (map Num ys) = Num 0"
  proof
    assume h: "length xs = length ys \<and> length xs \<le> 2 ^ 20 \<and>
      (vnorm xs = 0 \<and> vnorm ys \<le> 2 ^ 495 \<or> vnorm ys = 0 \<and> vnorm xs \<le> 2 ^ 495)"
    then have len: "length xs = length ys" and n: "length xs \<le> 2 ^ 20" by simp_all
    from h consider "vnorm xs = 0" "vnorm ys \<le> 2 ^ 495" | "vnorm ys = 0" "vnorm xs \<le> 2 ^ 495"
      by blast
    then show "cosineSimilarity (map Num xs) (map Num ys) = Num 0"
    proof cases
      case 1
      then show ?thesis using len n by (intro cosineSimilarity_zero vnorm_upper)
    next
      case 2
      have "cosineSimilarity (map Num ys) (map Num xs) = Num 0"
        using 2 len n by (intro cosineSimilarity_zero vnorm_upper) simp_all
      then show ?thesis by (simp only: cosineSimilarity_commute [of "map Num xs"])
    qed
  qed
  have c: "length xs = length ys \<and> length xs \<le> 2 ^ 20 \<and>
    1 / 2 ^ 495 \<le> vnorm xs \<and> vnorm xs \<le> 2 ^ 495 \<and>
    1 / 2 ^ 495 \<le> vnorm ys \<and> vnorm ys \<le> 2 ^ 495 \<longrightarrow>
      (\<exists>r. cosineSimilarity (map Num xs) (map Num ys) = Num r \<and>
           \<bar>r - dot xs ys / (vnorm xs * vnorm ys)\<bar> \<le> (real (length xs) + 3) / 2 ^ 49)"
    using cosineSimilarity_in_range [of xs ys] by blast
  show ?thesis using a b c by blast
qed

text \<open>
  The theorem at vectors of different lengths, at \<open>[0]\<close> and \<open>[1]\<close>, and at \<open>[1]\<close> with
  itself.
\<close>

theorem cosineSimilarity_value_witness:
  "length [Num 1] \<noteq> length ([] :: number list) \<and> cosineSimilarity [Num 1] [] = Num 0 \<and>
   vnorm [0] = 0 \<and> vnorm [1] \<le> 2 ^ 495 \<and> cosineSimilarity (map Num [0]) (map Num [1]) = Num 0 \<and>
   1 / 2 ^ 495 \<le> vnorm [1] \<and>
   (\<exists>r. cosineSimilarity (map Num [1]) (map Num [1]) = Num r \<and>
        \<bar>r - dot [1] [1] / (vnorm [1] * vnorm [1])\<bar> \<le> (real (length [1::real]) + 3) / 2 ^ 49)"
proof -
  have a: "length [Num 1] \<noteq> length ([] :: number list)" by simp
  have b: "vnorm [0] = 0" "vnorm [1] = 1" by (simp_all add: vnorm_def dot_def)
  have c: "vnorm [1] \<le> 2 ^ 495" "1 / 2 ^ 495 \<le> vnorm [1]" by (simp_all add: b)
  have d: "length [0::real] = length [1::real]" "length [0::real] \<le> 2 ^ 20"
    "length [1::real] = length [1::real]" "length [1::real] \<le> 2 ^ 20" by simp_all
  show ?thesis
    using cosineSimilarity_value [of "[Num 1]" "[]" "[0]" "[1]"]
      cosineSimilarity_value [of "[Num 1]" "[]" "[1]" "[1]"] a b(1) c d
    by blast
qed

subsection \<open>\<open>cosineSimilarity\<close>: symmetry and range\<close>

lemma cosine_abs_le_1:
  assumes "length xs = length ys" "0 < vnorm xs" "0 < vnorm ys"
  shows "\<bar>dot xs ys / (vnorm xs * vnorm ys)\<bar> \<le> 1"
proof -
  have pos: "0 < vnorm xs * vnorm ys" using assms(2,3) by simp
  have "\<bar>dot xs ys / (vnorm xs * vnorm ys)\<bar> = \<bar>dot xs ys\<bar> / (vnorm xs * vnorm ys)"
    using pos by (simp only: abs_divide abs_of_pos)
  also have "\<dots> \<le> 1" using abs_dot_le [OF assms(1)] pos by simp
  finally show ?thesis .
qed

text \<open>
  C8, as stated: for all vectors of equal nonzero length the similarity is symmetric and
  lies in \<open>[-1, 1]\<close>. At \<open>a = b = [1, 1, 1]\<close> the result is \<open>1 + 2^-52\<close>, above \<open>1\<close> by one
  rounding error; at \<open>a = b = [2^600]\<close> the squares overflow and the result is NaN, which
  lies in no interval and is not \<open>===\<close> to itself.
\<close>

theorem cosineSimilarity_above_one:
  "length [Num 1, Num 1, Num 1] \<noteq> 0 \<and>
   cosineSimilarity [Num 1, Num 1, Num 1] [Num 1, Num 1, Num 1] = Num (1 + 1 / 2 ^ 52) \<and>
   \<not> (\<exists>r. cosineSimilarity [Num 1, Num 1, Num 1] [Num 1, Num 1, Num 1] = Num r \<and> - 1 \<le> r \<and> r \<le> 1) \<and>
   cosineSimilarity [Num (2 ^ 600)] [Num (2 ^ 600)] = NaN"
proof -
  have a: "cosineSimilarity [Num 1, Num 1, Num 1] [Num 1, Num 1, Num 1] = Num (1 + 1 / 2 ^ 52)"
    by (rule cosineSimilarity_ones)
  have b: "\<not> (\<exists>r. cosineSimilarity [Num 1, Num 1, Num 1] [Num 1, Num 1, Num 1] = Num r \<and> - 1 \<le> r \<and> r \<le> 1)"
    unfolding a by simp
  have c: "cosineSimilarity [Num (2 ^ 600)] [Num (2 ^ 600)] = NaN" by (rule cosineSimilarity_overflow)
  have d: "length [Num 1, Num 1, Num 1] \<noteq> 0" by simp
  show ?thesis using a b c d by blast
qed

text \<open>
  C8, amended. For all vectors the two orders of the arguments give the same result. For
  vectors of finite numbers of the same length \<open>n\<close>, at most \<open>2^20\<close>, whose norms lie between
  \<open>2^-495\<close> and \<open>2^495\<close>, that result is a finite number (so the two are \<open>===\<close>) and lies in
  \<open>[-1, 1]\<close> up to the tolerance \<open>(n + 3) / 2^49\<close>.
\<close>

theorem cosineSimilarity_symmetric_bounded:
  "cosineSimilarity a b = cosineSimilarity b a \<and>
   (length xs = length ys \<and> length xs \<le> 2 ^ 20 \<and>
    1 / 2 ^ 495 \<le> vnorm xs \<and> vnorm xs \<le> 2 ^ 495 \<and>
    1 / 2 ^ 495 \<le> vnorm ys \<and> vnorm ys \<le> 2 ^ 495 \<longrightarrow>
      (\<exists>r. cosineSimilarity (map Num xs) (map Num ys) = Num r \<and>
           cosineSimilarity (map Num ys) (map Num xs) = Num r \<and>
           - 1 - (real (length xs) + 3) / 2 ^ 49 \<le> r \<and>
           r \<le> 1 + (real (length xs) + 3) / 2 ^ 49))"
proof -
  have "\<exists>r. cosineSimilarity (map Num xs) (map Num ys) = Num r \<and>
           cosineSimilarity (map Num ys) (map Num xs) = Num r \<and>
           - 1 - (real (length xs) + 3) / 2 ^ 49 \<le> r \<and>
           r \<le> 1 + (real (length xs) + 3) / 2 ^ 49"
    if h: "length xs = length ys" "length xs \<le> 2 ^ 20"
      "1 / 2 ^ 495 \<le> vnorm xs" "vnorm xs \<le> 2 ^ 495" "1 / 2 ^ 495 \<le> vnorm ys" "vnorm ys \<le> 2 ^ 495"
  proof -
    obtain r where r: "cosineSimilarity (map Num xs) (map Num ys) = Num r"
      "\<bar>r - dot xs ys / (vnorm xs * vnorm ys)\<bar> \<le> (real (length xs) + 3) / 2 ^ 49"
      using cosineSimilarity_in_range [OF h] by blast
    have "0 < vnorm xs" using h(3) by (rule less_le_trans [rotated]) simp
    moreover have "0 < vnorm ys" using h(5) by (rule less_le_trans [rotated]) simp
    ultimately have "\<bar>dot xs ys / (vnorm xs * vnorm ys)\<bar> \<le> 1"
      using h(1) by (intro cosine_abs_le_1)
    then have "- 1 - (real (length xs) + 3) / 2 ^ 49 \<le> r" "r \<le> 1 + (real (length xs) + 3) / 2 ^ 49"
      using r(2) by linarith+
    moreover have "cosineSimilarity (map Num ys) (map Num xs) = Num r"
      using r(1) by (simp only: cosineSimilarity_commute [of "map Num ys"])
    ultimately show ?thesis using r(1) by blast
  qed
  then show ?thesis using cosineSimilarity_commute [of a b] by blast
qed

text \<open>The theorem at \<open>[1, 1, 1]\<close> with itself, where the result is \<open>1 + 2^-52\<close>.\<close>

theorem cosineSimilarity_symmetric_bounded_witness:
  "length [1, 1, 1 :: real] \<le> 2 ^ 20 \<and> 1 / 2 ^ 495 \<le> vnorm [1, 1, 1] \<and> vnorm [1, 1, 1] \<le> 2 ^ 495 \<and>
   cosineSimilarity [Num 1, Num 2] [Num 3, Num 4] = cosineSimilarity [Num 3, Num 4] [Num 1, Num 2] \<and>
   (\<exists>r. cosineSimilarity (map Num [1, 1, 1]) (map Num [1, 1, 1]) = Num r \<and>
        - 1 - (real (length [1, 1, 1 :: real]) + 3) / 2 ^ 49 \<le> r \<and>
        r \<le> 1 + (real (length [1, 1, 1 :: real]) + 3) / 2 ^ 49)"
proof -
  have v: "vnorm [1, 1, 1] = sqrt 3" by (simp add: vnorm_def dot_def)
  have lo: "1 / 2 ^ 495 \<le> vnorm [1, 1, 1]"
    unfolding v by (rule real_le_rsqrt) (simp add: power2_eq_square)
  have hi: "vnorm [1, 1, 1] \<le> 2 ^ 495"
    unfolding v by (rule real_le_lsqrt) (simp_all add: power2_eq_square)
  have n: "length [1, 1, 1 :: real] = length [1, 1, 1 :: real]" "length [1, 1, 1 :: real] \<le> 2 ^ 20"
    by simp_all
  show ?thesis
    using cosineSimilarity_symmetric_bounded [of "[Num 1, Num 2]" "[Num 3, Num 4]" "[1, 1, 1]" "[1, 1, 1]"]
      lo hi n
    by blast
qed

section \<open>The vector database: proofs\<close>

subsection \<open>\<open>search\<close>: ranking\<close>

lemma mset_insertBy: "mset (insertBy cmp x ys) = add_mset x (mset ys)"
  by (induction ys) simp_all

lemma sortBy_Cons: "sortBy cmp (x # xs) = insertBy cmp x (sortBy cmp xs)"
  by (simp add: sortBy_def)

lemma mset_sortBy: "mset (sortBy cmp xs) = mset xs"
  by (induction xs) (simp_all add: sortBy_Cons mset_insertBy, simp add: sortBy_def)

lemma set_sortBy: "set (sortBy cmp xs) = set xs"
  using mset_sortBy [of cmp xs] by (metis set_mset_mset)

lemma insertBy_byScore:
  assumes "\<forall>p\<in>set (x # ys). \<exists>r. snd p = Num r \<and> onGrid r"
  shows "insertBy byScore x ys = insort_key (\<lambda>p. - realOf (snd p)) x ys"
  using assms
proof (induction ys)
  case Nil
  then show ?case by simp
next
  case (Cons y ys)
  obtain rx where rx: "snd x = Num rx" "onGrid rx" using Cons.prems by auto
  obtain ry where ry: "snd y = Num ry" "onGrid ry" using Cons.prems by auto
  have p: "positive (byScore x y) = (rx < ry)"
    using positive_fsub [OF rx(2) ry(2)] by (simp add: byScore_def rx(1) ry(1))
  have IH: "insertBy byScore x ys = insort_key (\<lambda>p. - realOf (snd p)) x ys"
    using Cons.IH Cons.prems by simp
  show ?case using p IH by (auto simp: rx(1) ry(1))
qed

lemma sortBy_byScore:
  assumes "\<forall>p\<in>set xs. \<exists>r. snd p = Num r \<and> onGrid r"
  shows "sortBy byScore xs = sort_key (\<lambda>p. - realOf (snd p)) xs"
  using assms
proof (induction xs)
  case Nil
  then show ?case by (simp add: sortBy_def)
next
  case (Cons x xs)
  have IH: "sortBy byScore xs = sort_key (\<lambda>p. - realOf (snd p)) xs"
    using Cons.IH Cons.prems by simp
  have "\<forall>p\<in>set (x # sort_key (\<lambda>p. - realOf (snd p)) xs). \<exists>r. snd p = Num r \<and> onGrid r"
    using Cons.prems by simp
  then have "insertBy byScore x (sort_key (\<lambda>p. - realOf (snd p)) xs) =
      insort_key (\<lambda>p. - realOf (snd p)) x (sort_key (\<lambda>p. - realOf (snd p)) xs)"
    by (rule insertBy_byScore)
  then show ?case by (simp add: sortBy_Cons IH)
qed

lemma scoreAll_grid:
  assumes "p \<in> set (scoreAll q docs)" "isFinite (snd p)"
  shows "\<exists>r. snd p = Num r \<and> onGrid r"
proof -
  from assms(1) obtain doc where "p = (doc, cosineSimilarity q (d_embedding doc))"
    by (auto simp: scoreAll_def)
  then have s: "snd p = cosineSimilarity q (d_embedding doc)" by simp
  obtain r where r: "snd p = Num r" using assms(2) by (cases "snd p") simp_all
  have "onGrid r" using cosineSimilarity_grid [of q "d_embedding doc" r] s r by simp
  with r show ?thesis by blast
qed

lemma sorted_sortBy:
  assumes "\<forall>p\<in>set xs. \<exists>r. snd p = Num r \<and> onGrid r"
  shows "sorted_wrt (\<lambda>a b. realOf (snd b) \<le> realOf (snd a)) (sortBy byScore xs)"
proof -
  have "sorted (map (\<lambda>p. - realOf (snd p)) (sortBy byScore xs))"
    by (simp add: sortBy_byScore [OF assms])
  then show ?thesis by (simp add: sorted_wrt_map sorted_wrt_iff_nth_less sorted_iff_nth_mono_less)
qed

lemma stable_sortBy:
  assumes "\<forall>p\<in>set xs. \<exists>r. snd p = Num r \<and> onGrid r"
  shows "filter (\<lambda>p. snd p = v) (sortBy byScore xs) = filter (\<lambda>p. snd p = v) xs"
proof (cases v)
  case (Num r)
  have eq: "(snd p = v) = (- realOf (snd p) = - r)" if "p \<in> set xs" for p
    using assms that Num by auto
  have "filter (\<lambda>p. snd p = v) (sortBy byScore xs) =
        filter (\<lambda>p. - realOf (snd p) = - r) (sortBy byScore xs)"
    by (rule filter_cong [OF refl]) (simp add: eq set_sortBy)
  also have "\<dots> = filter (\<lambda>p. - realOf (snd p) = - r) xs"
    unfolding sortBy_byScore [OF assms] by (rule sort_key_stable)
  also have "\<dots> = filter (\<lambda>p. snd p = v) xs"
    by (rule filter_cong [OF refl]) (simp add: eq)
  finally show ?thesis .
next
  case PosInf
  then have "\<forall>p\<in>set xs. snd p \<noteq> v" using assms by auto
  then show ?thesis by (simp add: set_sortBy filter_False [unfolded Ball_def] cong: filter_cong)
next
  case NegInf
  then have "\<forall>p\<in>set xs. snd p \<noteq> v" using assms by auto
  then show ?thesis by (simp add: set_sortBy cong: filter_cong)
next
  case NaN
  then have "\<forall>p\<in>set xs. snd p \<noteq> v" using assms by auto
  then show ?thesis by (simp add: set_sortBy cong: filter_cong)
qed

lemma objectEntries_single: "objectEntries [p] = [p]"
  by (cases "isArrayIndex (fst p)") (simp_all add: objectEntries_def)

lemma length_slice0: "0 \<le> limit \<Longrightarrow> length (slice0 limit xs) \<le> nat limit"
  by (simp add: slice0_def)

lemma sorted_wrt_take_drop: "sorted_wrt P xs \<Longrightarrow> sorted_wrt P (take n xs)"
  by (metis append_take_drop_id sorted_wrt_append)

lemma sorted_slice0: "sorted_wrt P xs \<Longrightarrow> sorted_wrt P (slice0 limit xs)"
  by (simp add: slice0_def sorted_wrt_take_drop)

lemma initialize_openAI [simp]: "openAIInstance (initialize w) = openAIInstance w"
  by (simp add: initialize_def loadCache_def split: option.splits item.splits)

lemma initialize_embedCalls [simp]: "embedCalls (initialize w) = embedCalls w"
  by (simp add: initialize_def loadCache_def split: option.splits item.splits)

lemma initialize_storage [simp]: "storage (initialize w) = storage w"
  by (simp add: initialize_def loadCache_def split: option.splits item.splits)

lemma initialize_initialized [simp]: "initialized (initialize w)"
  by (simp add: initialize_def loadCache_def split: option.splits item.splits)

lemma initialize_idem: "initialized w \<Longrightarrow> initialize w = w"
  by (simp add: initialize_def)

lemma search_scored:
  assumes "documents (initialize w) \<noteq> []" "openAIInstance w = Some openAI"
    "openAI query = Inr queryEmbedding"
  shows "fst (search query limit w) =
           Inr (map toResult (slice0 limit
                  (sortBy byScore (scoreAll queryEmbedding (Map_values (documents (initialize w)))))))"
  using assms by (simp add: search_def Let_def getOpenAI_def)

lemma self_score:
  assumes "doc \<in> set docs" "d_embedding doc = map Num xs" "length xs \<le> 2 ^ 20"
    "1 / 2 ^ 495 \<le> vnorm xs" "vnorm xs \<le> 2 ^ 495"
  shows "\<exists>r. (doc, Num r) \<in> set (sortBy byScore (scoreAll (map Num xs) docs)) \<and>
             \<bar>r - 1\<bar> \<le> (real (length xs) + 3) / 2 ^ 49"
proof -
  obtain r where r: "cosineSimilarity (map Num xs) (map Num xs) = Num r"
    "\<bar>r - dot xs xs / (vnorm xs * vnorm xs)\<bar> \<le> (real (length xs) + 3) / 2 ^ 49"
    using cosineSimilarity_in_range [OF refl assms(3,4,5,4,5)] by blast
  have pos: "0 < vnorm xs" using assms(4) by (rule less_le_trans [rotated]) simp
  have e: "dot xs xs = vnorm xs * vnorm xs" by (simp add: vnorm_def dot_self_nonneg)
  have "vnorm xs * vnorm xs \<noteq> 0" using pos by simp
  then have one: "dot xs xs / (vnorm xs * vnorm xs) = 1" unfolding e by (rule divide_self)
  have "\<bar>r - 1\<bar> \<le> (real (length xs) + 3) / 2 ^ 49" using r(2) by (simp only: one)
  moreover have "(doc, Num r) \<in> set (scoreAll (map Num xs) docs)"
    using assms(1,2) r(1) by (force simp: scoreAll_def)
  ultimately show ?thesis by (auto simp: set_sortBy)
qed

lemma other_score:
  assumes "doc \<in> set docs" "d_embedding doc = map Num ys" "length ys = length xs"
    "length xs \<le> 2 ^ 20" "1 / 2 ^ 495 \<le> vnorm xs" "vnorm xs \<le> 2 ^ 495"
    "1 / 2 ^ 495 \<le> vnorm ys" "vnorm ys \<le> 2 ^ 495"
  shows "\<exists>r. (doc, Num r) \<in> set (sortBy byScore (scoreAll (map Num xs) docs)) \<and>
             r \<le> 1 + (real (length xs) + 3) / 2 ^ 49"
proof -
  have len: "length xs = length ys" using assms(3) by simp
  obtain r where r: "cosineSimilarity (map Num xs) (map Num ys) = Num r"
    "\<bar>r - dot xs ys / (vnorm xs * vnorm ys)\<bar> \<le> (real (length xs) + 3) / 2 ^ 49"
    using cosineSimilarity_in_range [OF len assms(4,5,6,7,8)] by blast
  have "0 < vnorm xs" using assms(5) by (rule less_le_trans [rotated]) simp
  moreover have "0 < vnorm ys" using assms(7) by (rule less_le_trans [rotated]) simp
  ultimately have "\<bar>dot xs ys / (vnorm xs * vnorm ys)\<bar> \<le> 1"
    using len by (intro cosine_abs_le_1)
  then have "r \<le> 1 + (real (length xs) + 3) / 2 ^ 49" using r(2) by linarith
  moreover have "(doc, Num r) \<in> set (scoreAll (map Num xs) docs)"
    using assms(1,2) r(1) by (force simp: scoreAll_def)
  ultimately show ?thesis by (auto simp: set_sortBy)
qed

lemma scores_finite:
  assumes "length xs \<le> 2 ^ 20" "1 / 2 ^ 495 \<le> vnorm xs" "vnorm xs \<le> 2 ^ 495"
    and "list_all (\<lambda>doc. \<exists>ys. d_embedding doc = map Num ys \<and>
             (length ys = length xs \<longrightarrow> 1 / 2 ^ 495 \<le> vnorm ys \<and> vnorm ys \<le> 2 ^ 495)) docs"
  shows "list_all (\<lambda>p. isFinite (snd p)) (sortBy byScore (scoreAll (map Num xs) docs))"
proof -
  have "isFinite (snd p)" if "p \<in> set (scoreAll (map Num xs) docs)" for p
  proof -
    from that obtain doc where doc: "doc \<in> set docs"
      "p = (doc, cosineSimilarity (map Num xs) (d_embedding doc))"
      by (auto simp: scoreAll_def)
    obtain ys where ys: "d_embedding doc = map Num ys"
      "length ys = length xs \<longrightarrow> 1 / 2 ^ 495 \<le> vnorm ys \<and> vnorm ys \<le> 2 ^ 495"
      using assms(4) doc(1) by (auto simp: list_all_iff)
    show ?thesis
    proof (cases "length ys = length xs")
      case True
      then have "\<exists>r. cosineSimilarity (map Num xs) (map Num ys) = Num r \<and>
          \<bar>r - dot xs ys / (vnorm xs * vnorm ys)\<bar> \<le> (real (length xs) + 3) / 2 ^ 49"
        using ys(2) assms(1,2,3) by (intro cosineSimilarity_in_range) simp_all
      then show ?thesis using doc(2) ys(1) by auto
    next
      case False
      then have "cosineSimilarity (map Num xs) (map Num ys) = Num 0"
        by (simp add: cosineSimilarity_def)
      then show ?thesis using doc(2) ys(1) by simp
    qed
  qed
  then show ?thesis by (simp add: list_all_iff set_sortBy)
qed

text \<open>
  C3, amended. When \<open>search\<close> gets to score (the map is not empty, a provider is set and
  embeds the query, which \<open>search\<close> asks it to do at every call), its result is the first
  \<open>limit\<close> entries, projected to results, of a list \<open>ranked\<close> that holds every stored document
  once with its \<open>cosineSimilarity\<close> to the query embedding. For \<open>0 \<le> limit\<close> there are at most
  \<open>limit\<close> results. When every score is a finite number, \<open>ranked\<close> is in descending order of
  score, documents of equal score in the order of the document map (the order of
  insertion: \<open>createdAt\<close> plays no part).

  Let the query embedding be a vector of \<open>n\<close> finite numbers, \<open>n\<close> at most \<open>2^20\<close>, with a norm
  between \<open>2^-495\<close> and \<open>2^495\<close>, and \<open>t = (n + 3) / 2^49\<close>. A document with that embedding has
  a score within \<open>t\<close> of \<open>1\<close>; a document whose embedding has the same length and a norm
  within the same bounds has a score of at most \<open>1 + t\<close> (so the former is within \<open>2 t\<close> of
  the best of the latter, but need not come first). When every document has an embedding
  of finite numbers that is of another length or has a norm within these bounds, every
  score is a finite number.
\<close>

theorem search_ranking:
  assumes "documents (initialize w) \<noteq> []" "openAIInstance w = Some openAI"
    "openAI query = Inr queryEmbedding"
  shows "\<exists>ranked.
           fst (search query limit w) = Inr (map toResult (slice0 limit ranked)) \<and>
           embedCalls (snd (search query limit w)) = embedCalls w @ [query] \<and>
           mset ranked = mset (scoreAll queryEmbedding (Map_values (documents (initialize w)))) \<and>
           (0 \<le> limit \<longrightarrow> length (slice0 limit ranked) \<le> nat limit) \<and>
           (list_all (\<lambda>p. isFinite (snd p)) ranked \<longrightarrow>
              sorted_wrt (\<lambda>a b. realOf (snd b) \<le> realOf (snd a)) ranked \<and>
              sorted_wrt (\<lambda>a b. realOf (r_score b) \<le> realOf (r_score a))
                (map toResult (slice0 limit ranked)) \<and>
              (\<forall>v. filter (\<lambda>p. snd p = v) ranked =
                     filter (\<lambda>p. snd p = v)
                       (scoreAll queryEmbedding (Map_values (documents (initialize w)))))) \<and>
           (\<forall>xs. queryEmbedding = map Num xs \<and> length xs \<le> 2 ^ 20 \<and>
                 1 / 2 ^ 495 \<le> vnorm xs \<and> vnorm xs \<le> 2 ^ 495 \<longrightarrow>
              (\<forall>doc\<in>set (Map_values (documents (initialize w))).
                  d_embedding doc = queryEmbedding \<longrightarrow>
                  (\<exists>r. (doc, Num r) \<in> set ranked \<and> \<bar>r - 1\<bar> \<le> (real (length xs) + 3) / 2 ^ 49)) \<and>
              (\<forall>doc\<in>set (Map_values (documents (initialize w))).
                  \<forall>ys. d_embedding doc = map Num ys \<and> length ys = length xs \<and>
                       1 / 2 ^ 495 \<le> vnorm ys \<and> vnorm ys \<le> 2 ^ 495 \<longrightarrow>
                  (\<exists>r. (doc, Num r) \<in> set ranked \<and> r \<le> 1 + (real (length xs) + 3) / 2 ^ 49)) \<and>
              (list_all (\<lambda>doc. \<exists>ys. d_embedding doc = map Num ys \<and>
                            (length ys = length xs \<longrightarrow> 1 / 2 ^ 495 \<le> vnorm ys \<and> vnorm ys \<le> 2 ^ 495))
                 (Map_values (documents (initialize w))) \<longrightarrow>
               list_all (\<lambda>p. isFinite (snd p)) ranked))"
proof -
  let ?docs = "Map_values (documents (initialize w))"
  let ?scored = "scoreAll queryEmbedding ?docs"
  let ?ranked = "sortBy byScore ?scored"
  have a: "fst (search query limit w) = Inr (map toResult (slice0 limit ?ranked))"
    using assms by (rule search_scored)
  have b: "embedCalls (snd (search query limit w)) = embedCalls w @ [query]"
    using assms by (simp add: search_def Let_def getOpenAI_def)
  have c: "mset ?ranked = mset ?scored"
    by (rule mset_sortBy)
  have d: "0 \<le> limit \<longrightarrow> length (slice0 limit ?ranked) \<le> nat limit"
    by (simp add: length_slice0)
  have e: "list_all (\<lambda>p. isFinite (snd p)) ?ranked \<longrightarrow>
              sorted_wrt (\<lambda>a b. realOf (snd b) \<le> realOf (snd a)) ?ranked \<and>
              sorted_wrt (\<lambda>a b. realOf (r_score b) \<le> realOf (r_score a))
                (map toResult (slice0 limit ?ranked)) \<and>
              (\<forall>v. filter (\<lambda>p. snd p = v) ?ranked = filter (\<lambda>p. snd p = v) ?scored)"
  proof
    assume "list_all (\<lambda>p. isFinite (snd p)) ?ranked"
    then have "\<forall>p\<in>set ?scored. isFinite (snd p)"
      by (simp add: list_all_iff set_sortBy)
    then have g: "\<forall>p\<in>set ?scored. \<exists>r. snd p = Num r \<and> onGrid r"
      using scoreAll_grid by blast
    have s: "sorted_wrt (\<lambda>a b. realOf (snd b) \<le> realOf (snd a)) ?ranked"
      by (rule sorted_sortBy [OF g])
    have "sorted_wrt (\<lambda>a b. realOf (snd b) \<le> realOf (snd a)) (slice0 limit ?ranked)"
      by (rule sorted_slice0 [OF s])
    then have t: "sorted_wrt (\<lambda>a b. realOf (r_score b) \<le> realOf (r_score a))
        (map toResult (slice0 limit ?ranked))"
      by (simp add: sorted_wrt_map toResult_def split_def)
    have "\<forall>v. filter (\<lambda>p. snd p = v) ?ranked = filter (\<lambda>p. snd p = v) ?scored"
      using stable_sortBy [OF g] by blast
    with s t show "sorted_wrt (\<lambda>a b. realOf (snd b) \<le> realOf (snd a)) ?ranked \<and>
              sorted_wrt (\<lambda>a b. realOf (r_score b) \<le> realOf (r_score a))
                (map toResult (slice0 limit ?ranked)) \<and>
              (\<forall>v. filter (\<lambda>p. snd p = v) ?ranked = filter (\<lambda>p. snd p = v) ?scored)"
      by blast
  qed
  have f: "\<forall>xs. queryEmbedding = map Num xs \<and> length xs \<le> 2 ^ 20 \<and>
                 1 / 2 ^ 495 \<le> vnorm xs \<and> vnorm xs \<le> 2 ^ 495 \<longrightarrow>
              (\<forall>doc\<in>set ?docs.
                  d_embedding doc = queryEmbedding \<longrightarrow>
                  (\<exists>r. (doc, Num r) \<in> set ?ranked \<and> \<bar>r - 1\<bar> \<le> (real (length xs) + 3) / 2 ^ 49)) \<and>
              (\<forall>doc\<in>set ?docs.
                  \<forall>ys. d_embedding doc = map Num ys \<and> length ys = length xs \<and>
                       1 / 2 ^ 495 \<le> vnorm ys \<and> vnorm ys \<le> 2 ^ 495 \<longrightarrow>
                  (\<exists>r. (doc, Num r) \<in> set ?ranked \<and> r \<le> 1 + (real (length xs) + 3) / 2 ^ 49)) \<and>
              (list_all (\<lambda>doc. \<exists>ys. d_embedding doc = map Num ys \<and>
                            (length ys = length xs \<longrightarrow> 1 / 2 ^ 495 \<le> vnorm ys \<and> vnorm ys \<le> 2 ^ 495))
                 ?docs \<longrightarrow>
               list_all (\<lambda>p. isFinite (snd p)) ?ranked)"
  proof (intro allI impI)
    fix xs
    assume h: "queryEmbedding = map Num xs \<and> length xs \<le> 2 ^ 20 \<and>
                 1 / 2 ^ 495 \<le> vnorm xs \<and> vnorm xs \<le> 2 ^ 495"
    then have q: "queryEmbedding = map Num xs" and n: "length xs \<le> 2 ^ 20"
      and lo: "1 / 2 ^ 495 \<le> vnorm xs" and hi: "vnorm xs \<le> 2 ^ 495"
      by simp_all
    have 1: "\<forall>doc\<in>set ?docs. d_embedding doc = queryEmbedding \<longrightarrow>
        (\<exists>r. (doc, Num r) \<in> set ?ranked \<and> \<bar>r - 1\<bar> \<le> (real (length xs) + 3) / 2 ^ 49)"
      unfolding q using self_score [OF _ _ n lo hi] by blast
    have 2: "\<forall>doc\<in>set ?docs. \<forall>ys. d_embedding doc = map Num ys \<and> length ys = length xs \<and>
                       1 / 2 ^ 495 \<le> vnorm ys \<and> vnorm ys \<le> 2 ^ 495 \<longrightarrow>
        (\<exists>r. (doc, Num r) \<in> set ?ranked \<and> r \<le> 1 + (real (length xs) + 3) / 2 ^ 49)"
      unfolding q using other_score [OF _ _ _ n lo hi] by blast
    have 3: "list_all (\<lambda>doc. \<exists>ys. d_embedding doc = map Num ys \<and>
                            (length ys = length xs \<longrightarrow> 1 / 2 ^ 495 \<le> vnorm ys \<and> vnorm ys \<le> 2 ^ 495))
                 ?docs \<longrightarrow>
               list_all (\<lambda>p. isFinite (snd p)) ?ranked"
      unfolding q using scores_finite [OF n lo hi] by blast
    show "(\<forall>doc\<in>set ?docs.
                  d_embedding doc = queryEmbedding \<longrightarrow>
                  (\<exists>r. (doc, Num r) \<in> set ?ranked \<and> \<bar>r - 1\<bar> \<le> (real (length xs) + 3) / 2 ^ 49)) \<and>
              (\<forall>doc\<in>set ?docs.
                  \<forall>ys. d_embedding doc = map Num ys \<and> length ys = length xs \<and>
                       1 / 2 ^ 495 \<le> vnorm ys \<and> vnorm ys \<le> 2 ^ 495 \<longrightarrow>
                  (\<exists>r. (doc, Num r) \<in> set ?ranked \<and> r \<le> 1 + (real (length xs) + 3) / 2 ^ 49)) \<and>
              (list_all (\<lambda>doc. \<exists>ys. d_embedding doc = map Num ys \<and>
                            (length ys = length xs \<longrightarrow> 1 / 2 ^ 495 \<le> vnorm ys \<and> vnorm ys \<le> 2 ^ 495))
                 ?docs \<longrightarrow>
               list_all (\<lambda>p. isFinite (snd p)) ?ranked)"
      using 1 2 3 by blast
  qed
  show ?thesis using a b c d e f by blast
qed

lemma byScore_tie: "\<not> positive (byScore (olderDoc, Num 1) (newerDoc, Num 1))"
  by (simp add: byScore_def fsub_def round64_0)

lemma search_twoDocs:
  "fst (search ''hello'' 10 twoDocs) = Inr [toResult (olderDoc, Num 1), toResult (newerDoc, Num 1)]"
proof -
  have "scoreAll [Num 1] [olderDoc, newerDoc] = [(olderDoc, Num 1), (newerDoc, Num 1)]"
    by (simp add: scoreAll_def olderDoc_def newerDoc_def cosineSimilarity_one)
  moreover have "sortBy byScore [(olderDoc, Num 1), (newerDoc, Num 1)] = [(olderDoc, Num 1), (newerDoc, Num 1)]"
    using byScore_tie by (simp add: sortBy_def)
  ultimately show ?thesis
    by (simp add: search_def twoDocs_def initialize_def getOpenAI_def unitProvider_def Let_def
        Map_values_def slice0_def)
qed

lemma byScore_parallel:
  "positive (byScore (sameDoc, Num (1 - 1 / 2 ^ 52)) (parallelDoc, Num 1))"
proof -
  have "positive (round64 (1 - (1 - 1 / 2 ^ 52)))"
    by (rule round64_positive) simp
  then show ?thesis by (simp add: byScore_def fsub_def)
qed

lemma search_parallelDocs:
  "fst (search ''hello'' 10 parallelDocs) =
     Inr [toResult (parallelDoc, Num 1), toResult (sameDoc, Num (1 - 1 / 2 ^ 52))]"
proof -
  have "scoreAll [Num 1, Num 1] [sameDoc, parallelDoc] =
      [(sameDoc, Num (1 - 1 / 2 ^ 52)), (parallelDoc, Num 1)]"
    by (simp add: scoreAll_def sameDoc_def parallelDoc_def cosineSimilarity_pair cosineSimilarity_parallel)
  moreover have "sortBy byScore [(sameDoc, Num (1 - 1 / 2 ^ 52)), (parallelDoc, Num 1)] =
      [(parallelDoc, Num 1), (sameDoc, Num (1 - 1 / 2 ^ 52))]"
    using byScore_parallel by (simp add: sortBy_def)
  ultimately show ?thesis
    by (simp add: search_def parallelDocs_def initialize_def getOpenAI_def pairProvider_def Let_def
        Map_values_def slice0_def)
qed

text \<open>
  C3, as stated, says that among results of equal score the more recent comes first, and
  that a document whose embedding is the query embedding ranks first. In \<open>twoDocs\<close> both
  documents score \<open>1\<close> for the query, and the older one is returned first. (Two documents
  with the same text score the same under every provider that embeds equal texts equally,
  as the repository's \<open>createEmbedding\<close> does.) In \<open>parallelDocs\<close> the query embedding is
  \<open>[1, 1]\<close>, the embedding of the first document; its score is \<open>1 - 2^-52\<close>, the second
  document, of embedding \<open>[3, 3]\<close>, scores \<open>1\<close> and is returned first.
\<close>

theorem search_ties_counterexample:
  "\<not> sorted_wrt (\<lambda>a b. greater (r_score a) (r_score b) \<or>
                      (r_score a = r_score b \<and> r_timestamp b \<le> r_timestamp a))
       (case fst (search ''hello'' 10 twoDocs) of Inr results \<Rightarrow> results | Inl e \<Rightarrow> []) \<and>
   pairProvider ''hello'' = Inr (d_embedding sameDoc) \<and>
   map r_sessionId (case fst (search ''hello'' 10 parallelDocs) of Inr results \<Rightarrow> results | Inl e \<Rightarrow> [])
     = [d_sessionId parallelDoc, d_sessionId sameDoc] \<and>
   d_sessionId parallelDoc \<noteq> d_sessionId sameDoc"
  by (simp add: search_twoDocs search_parallelDocs toResult_def olderDoc_def newerDoc_def
      pairProvider_def sameDoc_def parallelDoc_def)

text \<open>
  The theorem at \<open>twoDocs\<close>: the query embedding \<open>[1]\<close> is the embedding of both documents,
  every score is finite, and the ranked list is in order.
\<close>

theorem search_ranking_witness:
  "documents (initialize twoDocs) \<noteq> [] \<and> openAIInstance twoDocs = Some unitProvider \<and>
   unitProvider ''hello'' = Inr (map Num [1]) \<and> (0::int) \<le> 10 \<and>
   length [1::real] \<le> 2 ^ 20 \<and> 1 / 2 ^ 495 \<le> vnorm [1] \<and> vnorm [1] \<le> 2 ^ 495 \<and>
   olderDoc \<in> set (Map_values (documents (initialize twoDocs))) \<and> d_embedding olderDoc = map Num [1] \<and>
   list_all (\<lambda>doc. \<exists>ys. d_embedding doc = map Num ys \<and>
               (length ys = length [1::real] \<longrightarrow> 1 / 2 ^ 495 \<le> vnorm ys \<and> vnorm ys \<le> 2 ^ 495))
     (Map_values (documents (initialize twoDocs))) \<and>
   (\<exists>ranked.
      fst (search ''hello'' 10 twoDocs) = Inr (map toResult (slice0 10 ranked)) \<and>
      embedCalls (snd (search ''hello'' 10 twoDocs)) = embedCalls twoDocs @ [''hello''] \<and>
      mset ranked = mset (scoreAll (map Num [1]) (Map_values (documents (initialize twoDocs)))) \<and>
      length (slice0 10 ranked) \<le> nat 10 \<and>
      list_all (\<lambda>p. isFinite (snd p)) ranked \<and>
      sorted_wrt (\<lambda>a b. realOf (snd b) \<le> realOf (snd a)) ranked \<and>
      sorted_wrt (\<lambda>a b. realOf (r_score b) \<le> realOf (r_score a)) (map toResult (slice0 10 ranked)) \<and>
      (\<forall>v. filter (\<lambda>p. snd p = v) ranked =
             filter (\<lambda>p. snd p = v) (scoreAll (map Num [1]) (Map_values (documents (initialize twoDocs))))) \<and>
      (\<exists>r. (olderDoc, Num r) \<in> set ranked \<and> \<bar>r - 1\<bar> \<le> (real (length [1::real]) + 3) / 2 ^ 49 \<and>
           r \<le> 1 + (real (length [1::real]) + 3) / 2 ^ 49))"
proof -
  have a: "documents (initialize twoDocs) \<noteq> []" by (simp add: twoDocs_def initialize_def)
  have b: "openAIInstance twoDocs = Some unitProvider" by (simp add: twoDocs_def)
  have c: "unitProvider ''hello'' = Inr (map Num [1])" by (simp add: unitProvider_def)
  have docs: "Map_values (documents (initialize twoDocs)) = [olderDoc, newerDoc]"
    by (simp add: twoDocs_def initialize_def Map_values_def)
  have v: "vnorm [1] = 1" by (simp add: vnorm_def dot_def)
  have n: "length [1::real] \<le> 2 ^ 20" "1 / 2 ^ 495 \<le> vnorm [1]" "vnorm [1] \<le> 2 ^ 495"
    "(0::int) \<le> 10"
    by (simp_all add: v)
  have o: "olderDoc \<in> set (Map_values (documents (initialize twoDocs)))"
    "d_embedding olderDoc = map Num [1]" "d_embedding newerDoc = map Num [1]"
    by (simp_all add: docs olderDoc_def newerDoc_def)
  have l: "list_all (\<lambda>doc. \<exists>ys. d_embedding doc = map Num ys \<and>
               (length ys = length [1::real] \<longrightarrow> 1 / 2 ^ 495 \<le> vnorm ys \<and> vnorm ys \<le> 2 ^ 495))
     (Map_values (documents (initialize twoDocs)))"
  proof -
    have 1: "\<exists>ys. d_embedding olderDoc = map Num ys \<and>
        (length ys = length [1::real] \<longrightarrow> 1 / 2 ^ 495 \<le> vnorm ys \<and> vnorm ys \<le> 2 ^ 495)"
      using o(2) n(2,3) by blast
    have 2: "\<exists>ys. d_embedding newerDoc = map Num ys \<and>
        (length ys = length [1::real] \<longrightarrow> 1 / 2 ^ 495 \<le> vnorm ys \<and> vnorm ys \<le> 2 ^ 495)"
      using o(3) n(2,3) by blast
    show ?thesis using 1 2 by (simp only: docs list.pred_inject simp_thms)
  qed
  obtain ranked where r:
    "fst (search ''hello'' 10 twoDocs) = Inr (map toResult (slice0 10 ranked))"
    "embedCalls (snd (search ''hello'' 10 twoDocs)) = embedCalls twoDocs @ [''hello'']"
    "mset ranked = mset (scoreAll (map Num [1]) (Map_values (documents (initialize twoDocs))))"
    "0 \<le> (10::int) \<longrightarrow> length (slice0 10 ranked) \<le> nat 10"
    "list_all (\<lambda>p. isFinite (snd p)) ranked \<longrightarrow>
              sorted_wrt (\<lambda>a b. realOf (snd b) \<le> realOf (snd a)) ranked \<and>
              sorted_wrt (\<lambda>a b. realOf (r_score b) \<le> realOf (r_score a))
                (map toResult (slice0 10 ranked)) \<and>
              (\<forall>v. filter (\<lambda>p. snd p = v) ranked =
                     filter (\<lambda>p. snd p = v)
                       (scoreAll (map Num [1]) (Map_values (documents (initialize twoDocs)))))"
    "\<forall>xs. map Num [1] = map Num xs \<and> length xs \<le> 2 ^ 20 \<and>
                 1 / 2 ^ 495 \<le> vnorm xs \<and> vnorm xs \<le> 2 ^ 495 \<longrightarrow>
              (\<forall>doc\<in>set (Map_values (documents (initialize twoDocs))).
                  d_embedding doc = map Num [1] \<longrightarrow>
                  (\<exists>r. (doc, Num r) \<in> set ranked \<and> \<bar>r - 1\<bar> \<le> (real (length xs) + 3) / 2 ^ 49)) \<and>
              (\<forall>doc\<in>set (Map_values (documents (initialize twoDocs))).
                  \<forall>ys. d_embedding doc = map Num ys \<and> length ys = length xs \<and>
                       1 / 2 ^ 495 \<le> vnorm ys \<and> vnorm ys \<le> 2 ^ 495 \<longrightarrow>
                  (\<exists>r. (doc, Num r) \<in> set ranked \<and> r \<le> 1 + (real (length xs) + 3) / 2 ^ 49)) \<and>
              (list_all (\<lambda>doc. \<exists>ys. d_embedding doc = map Num ys \<and>
                            (length ys = length xs \<longrightarrow> 1 / 2 ^ 495 \<le> vnorm ys \<and> vnorm ys \<le> 2 ^ 495))
                 (Map_values (documents (initialize twoDocs))) \<longrightarrow>
               list_all (\<lambda>p. isFinite (snd p)) ranked)"
    using search_ranking [OF a b c, of 10] by blast
  note at = r(6) [rule_format, of "[1]", OF conjI [OF refl conjI [OF n(1) conjI [OF n(2) n(3)]]]]
  have fin: "list_all (\<lambda>p. isFinite (snd p)) ranked" using at l by blast
  have len: "length (slice0 10 ranked) \<le> nat 10" using r(4) n(4) by blast
  obtain x where x: "(olderDoc, Num x) \<in> set ranked"
    "\<bar>x - 1\<bar> \<le> (real (length [1::real]) + 3) / 2 ^ 49"
    using at o(1,2) by blast
  have "x \<le> 1 + (real (length [1::real]) + 3) / 2 ^ 49" using x(2) by linarith
  then have self: "\<exists>r. (olderDoc, Num r) \<in> set ranked \<and>
      \<bar>r - 1\<bar> \<le> (real (length [1::real]) + 3) / 2 ^ 49 \<and>
      r \<le> 1 + (real (length [1::real]) + 3) / 2 ^ 49"
    using x by blast
  have ord: "sorted_wrt (\<lambda>a b. realOf (snd b) \<le> realOf (snd a)) ranked"
    "sorted_wrt (\<lambda>a b. realOf (r_score b) \<le> realOf (r_score a)) (map toResult (slice0 10 ranked))"
    "\<forall>v. filter (\<lambda>p. snd p = v) ranked =
         filter (\<lambda>p. snd p = v) (scoreAll (map Num [1]) (Map_values (documents (initialize twoDocs))))"
    using r(5) fin by blast+
  have ex: "\<exists>ranked.
      fst (search ''hello'' 10 twoDocs) = Inr (map toResult (slice0 10 ranked)) \<and>
      embedCalls (snd (search ''hello'' 10 twoDocs)) = embedCalls twoDocs @ [''hello''] \<and>
      mset ranked = mset (scoreAll (map Num [1]) (Map_values (documents (initialize twoDocs)))) \<and>
      length (slice0 10 ranked) \<le> nat 10 \<and>
      list_all (\<lambda>p. isFinite (snd p)) ranked \<and>
      sorted_wrt (\<lambda>a b. realOf (snd b) \<le> realOf (snd a)) ranked \<and>
      sorted_wrt (\<lambda>a b. realOf (r_score b) \<le> realOf (r_score a)) (map toResult (slice0 10 ranked)) \<and>
      (\<forall>v. filter (\<lambda>p. snd p = v) ranked =
             filter (\<lambda>p. snd p = v) (scoreAll (map Num [1]) (Map_values (documents (initialize twoDocs))))) \<and>
      (\<exists>r. (olderDoc, Num r) \<in> set ranked \<and> \<bar>r - 1\<bar> \<le> (real (length [1::real]) + 3) / 2 ^ 49 \<and>
           r \<le> 1 + (real (length [1::real]) + 3) / 2 ^ 49)"
    using r(1,2,3) len fin ord self by blast
  show ?thesis using a b c n o(1,2) l ex by blast
qed

subsection \<open>\<open>saveToStorage\<close>: the size of the cache\<close>








subsection \<open>\<open>indexSession\<close> on unchanged messages\<close>

lemma indexMessage_unchanged:
  "unchangedDoc w session message \<Longrightarrow> indexMessage openAI session message w = w"
  by (simp add: indexMessage_def)

lemma indexMessages_unchanged:
  "list_all (unchangedDoc w session) messages \<Longrightarrow> indexMessages openAI session messages w = w"
  by (induction messages) (simp_all add: indexMessage_unchanged)

lemma saveToStorage_documents [simp]: "documents (saveToStorage w) = documents w"
  by (simp add: saveToStorage_def Let_def split: option.splits)

lemma saveToStorage_embedCalls [simp]: "embedCalls (saveToStorage w) = embedCalls w"
  by (simp add: saveToStorage_def Let_def split: option.splits)

text \<open>
  C5. \<open>indexSession\<close> first initialises the database, which changes nothing once it is
  initialised. For a conversation each of whose messages has, in the document map the
  indexing starts from, a document under its id with the same text, \<open>indexSession\<close> calls
  the embedding provider not once and leaves that document map as it is: on an
  initialised database, re-indexing leaves the document map unchanged.
\<close>

theorem reindex_unchanged:
  assumes "list_all (unchangedDoc (initialize w) session) (s_messages session)"
  shows "embedCalls (snd (indexSession session w)) = embedCalls w \<and>
         documents (snd (indexSession session w)) = documents (initialize w) \<and>
         (initialized w \<longrightarrow> documents (snd (indexSession session w)) = documents w)"
proof -
  have a: "embedCalls (snd (indexSession session w)) = embedCalls w \<and>
      documents (snd (indexSession session w)) = documents (initialize w)"
    using assms
    by (simp add: indexSession_def indexMessages_unchanged Let_def split: sum.splits)
  then have "initialized w \<longrightarrow> documents (snd (indexSession session w)) = documents w"
    by (simp add: initialize_idem)
  with a show ?thesis by blast
qed

text \<open>The theorem at \<open>twoDocs\<close> and the session of its first document.\<close>

theorem reindex_unchanged_witness:
  "initialized twoDocs \<and>
   list_all (unchangedDoc (initialize twoDocs) helloSession) (s_messages helloSession) \<and>
   s_messages helloSession \<noteq> [] \<and>
   embedCalls (snd (indexSession helloSession twoDocs)) = embedCalls twoDocs \<and>
   documents (snd (indexSession helloSession twoDocs)) = documents twoDocs"
proof -
  have a: "initialized twoDocs" by (simp add: twoDocs_def)
  have "list_all (unchangedDoc twoDocs helloSession) (s_messages helloSession)"
    by (simp add: helloSession_def unchangedDoc_def docIdOf_def twoDocs_def Map_get_def olderDoc_def)
  then have b: "list_all (unchangedDoc (initialize twoDocs) helloSession) (s_messages helloSession)"
    using a by (simp add: initialize_idem)
  have c: "s_messages helloSession \<noteq> []" by (simp add: helloSession_def)
  show ?thesis using reindex_unchanged [OF b] a b c by blast
qed

subsection \<open>\<open>search\<close>: errors\<close>

text \<open>
  C9, amended. \<open>search\<close> returns the empty list when the document map is empty, and when
  the provider's call for the query fails; it returns a list whenever a provider instance
  is set. When no instance is set and the map is not empty, it raises the error of
  \<open>getOpenAI\<close>, which is called outside the \<open>try\<close> block.
\<close>

theorem search_errors:
  "(documents (initialize w) = [] \<longrightarrow> fst (search query limit w) = Inr []) \<and>
   (\<forall>openAI e. openAIInstance w = Some openAI \<and> openAI query = Inl e \<longrightarrow>
        fst (search query limit w) = Inr []) \<and>
   (openAIInstance w \<noteq> None \<longrightarrow> (\<exists>results. fst (search query limit w) = Inr results)) \<and>
   (openAIInstance w = None \<and> documents (initialize w) \<noteq> [] \<longrightarrow>
        fst (search query limit w) = Inl notInitialized)"
  by (auto simp: search_def getOpenAI_def Let_def split: option.splits sum.splits)

text \<open>
  C9, as stated, says that \<open>search\<close> never raises. With two documents stored and no provider
  instance set, it raises.
\<close>

theorem search_raises_counterexample:
  "fst (search ''hello'' 10 (twoDocs\<lparr>openAIInstance := None\<rparr>)) = Inl notInitialized"
  by (simp add: search_def getOpenAI_def Let_def twoDocs_def initialize_def)

text \<open>The theorem at four states, one for each of its cases.\<close>

theorem search_errors_witness:
  "documents (initialize (twoDocs\<lparr>documents := []\<rparr>)) = [] \<and>
   fst (search ''hello'' 10 (twoDocs\<lparr>documents := []\<rparr>)) = Inr [] \<and>
   openAIInstance (twoDocs\<lparr>openAIInstance := Some failingProvider\<rparr>) = Some failingProvider \<and>
   failingProvider ''hello'' = Inl (Error ''quota'') \<and>
   fst (search ''hello'' 10 (twoDocs\<lparr>openAIInstance := Some failingProvider\<rparr>)) = Inr [] \<and>
   openAIInstance twoDocs \<noteq> None \<and> (\<exists>results. fst (search ''hello'' 10 twoDocs) = Inr results) \<and>
   openAIInstance (twoDocs\<lparr>openAIInstance := None\<rparr>) = None \<and>
   documents (initialize (twoDocs\<lparr>openAIInstance := None\<rparr>)) \<noteq> [] \<and>
   fst (search ''hello'' 10 (twoDocs\<lparr>openAIInstance := None\<rparr>)) = Inl notInitialized"
proof -
  have a: "documents (initialize (twoDocs\<lparr>documents := []\<rparr>)) = []"
    by (simp add: twoDocs_def initialize_def)
  have b: "openAIInstance (twoDocs\<lparr>openAIInstance := Some failingProvider\<rparr>) = Some failingProvider"
    "failingProvider ''hello'' = Inl (Error ''quota'')"
    by (simp_all add: failingProvider_def)
  have c: "openAIInstance twoDocs \<noteq> None" by (simp add: twoDocs_def)
  have d: "openAIInstance (twoDocs\<lparr>openAIInstance := None\<rparr>) = None"
    "documents (initialize (twoDocs\<lparr>openAIInstance := None\<rparr>)) \<noteq> []"
    by (simp_all add: twoDocs_def initialize_def)
  show ?thesis
    using search_errors [of "twoDocs\<lparr>documents := []\<rparr>" "''hello''" 10]
      search_errors [of "twoDocs\<lparr>openAIInstance := Some failingProvider\<rparr>" "''hello''" 10]
      search_errors [of twoDocs "''hello''" 10]
      search_errors [of "twoDocs\<lparr>openAIInstance := None\<rparr>" "''hello''" 10]
      a b c d
    by blast
qed

subsection \<open>\<open>search\<close> and \<open>findSimilar\<close>: what they change\<close>

lemma search_state:
  "snd (search query limit w) = initialize w \<or>
   snd (search query limit w) = (initialize w)\<lparr>embedCalls := embedCalls w @ [query]\<rparr>"
  by (simp add: search_def getOpenAI_def Let_def split: option.splits sum.splits)

lemma findSimilar_state:
  "snd (findSimilar messageContent exclude limit' w) = initialize w \<or>
   snd (findSimilar messageContent exclude limit' w) = (initialize w)\<lparr>embedCalls := embedCalls w @ [messageContent]\<rparr>"
  by (simp add: findSimilar_def getOpenAI_def Let_def split: option.splits sum.splits)

lemma findSimilar_calls:
  "Map_get (embeddingCache (initialize w)) messageContent = None \<Longrightarrow> openAIInstance w = Some openAI \<Longrightarrow>
   embedCalls (snd (findSimilar messageContent exclude limit' w)) = embedCalls w @ [messageContent]"
  by (simp add: findSimilar_def getOpenAI_def Let_def split: option.splits sum.splits)

text \<open>
  C10, amended. On a database that has been initialised, \<open>search\<close> and \<open>findSimilar\<close> leave
  the document map and the embedding cache as they were; \<open>findSimilar\<close> on a text that is
  not in the cache calls the provider for it and does not insert the embedding. (On a
  database that has not been initialised, both first run \<open>initialize\<close>, which loads the
  document map and the cache from storage.)
\<close>

theorem queries_read_only:
  assumes "initialized w"
  shows "documents (snd (search query limit w)) = documents w \<and>
         embeddingCache (snd (search query limit w)) = embeddingCache w \<and>
         documents (snd (findSimilar messageContent exclude limit' w)) = documents w \<and>
         embeddingCache (snd (findSimilar messageContent exclude limit' w)) = embeddingCache w \<and>
         (\<forall>openAI. Map_get (embeddingCache w) messageContent = None \<and> openAIInstance w = Some openAI \<longrightarrow>
            embedCalls (snd (findSimilar messageContent exclude limit' w)) = embedCalls w @ [messageContent] \<and>
            Map_get (embeddingCache (snd (findSimilar messageContent exclude limit' w))) messageContent = None)"
proof -
  have i: "initialize w = w" using assms by (rule initialize_idem)
  have s: "documents (snd (search query limit w)) = documents w \<and>
         embeddingCache (snd (search query limit w)) = embeddingCache w"
    using search_state [of query limit w] i by auto
  have f: "documents (snd (findSimilar messageContent exclude limit' w)) = documents w \<and>
         embeddingCache (snd (findSimilar messageContent exclude limit' w)) = embeddingCache w"
    using findSimilar_state [of messageContent exclude limit' w] i by auto
  show ?thesis using s f findSimilar_calls [of w messageContent _ exclude limit'] i by auto
qed

text \<open>The theorem at \<open>twoDocs\<close>, with a text that is not in its cache.\<close>

theorem queries_read_only_witness:
  "initialized twoDocs \<and>
   documents (snd (search ''hello'' 10 twoDocs)) = documents twoDocs \<and>
   embeddingCache (snd (search ''hello'' 10 twoDocs)) = embeddingCache twoDocs \<and>
   documents (snd (findSimilar ''bye'' None 5 twoDocs)) = documents twoDocs \<and>
   embeddingCache (snd (findSimilar ''bye'' None 5 twoDocs)) = embeddingCache twoDocs \<and>
   Map_get (embeddingCache twoDocs) ''bye'' = None \<and> openAIInstance twoDocs = Some unitProvider \<and>
   embedCalls (snd (findSimilar ''bye'' None 5 twoDocs)) = embedCalls twoDocs @ [''bye''] \<and>
   Map_get (embeddingCache (snd (findSimilar ''bye'' None 5 twoDocs))) ''bye'' = None"
proof -
  have a: "initialized twoDocs" by (simp add: twoDocs_def)
  have b: "Map_get (embeddingCache twoDocs) ''bye'' = None" "openAIInstance twoDocs = Some unitProvider"
    by (simp_all add: twoDocs_def Map_get_def)
  show ?thesis
    using queries_read_only [OF a, of "''hello''" 10 "''bye''" None 5] a b by blast
qed

text \<open>
  C10, as stated, holds for every input. The first \<open>search\<close> on a database that has not
  been initialised loads the stored documents: the document map changes.
\<close>

theorem search_loads_counterexample:
  "documents (snd (search ''hello'' 10 unloaded)) \<noteq> documents unloaded"
  by (simp add: search_def unloaded_def initialize_def loadCache_def workingStorage_def getOpenAI_def
      newMap_def unitProvider_def Let_def objectEntries_single)

section \<open>The offline queue: proofs\<close>

subsection \<open>Well-formed states\<close>

lemma markSyncing_apply:
  "markSyncing refs h q = (if q \<in> set refs then (h q)\<lparr>q_status := Syncing\<rparr> else h q)"
  unfolding markSyncing_def
  by (induction refs arbitrary: h) auto

lemma resetFailed_apply:
  "resetFailed refs h q =
     (if q \<in> set refs then (h q)\<lparr>q_status := Pending, q_retryCount := 0, q_error := None\<rparr> else h q)"
  unfolding resetFailed_def
  by (induction refs arbitrary: h) auto

lemma wellFormed_iff:
  "wellFormed s \<longleftrightarrow>
     distinct (queue s) \<and> distinct (held s) \<and>
     (\<forall>q \<in> set (queue s). q < nextRef s) \<and> (\<forall>q \<in> set (held s). q < nextRef s) \<and>
     (\<forall>q \<in> set (held s). q_status (heap s q) = Syncing) \<and>
     (\<forall>q. q < nextRef s \<longrightarrow> consistent (heap s q))"
  by (auto simp: wellFormed_def list_all_iff)

lemma held_append [simp]:
  "held (s\<lparr>activations := activations s @ [a]\<rparr>) = held s @ holds a"
  by (simp add: held_def)

lemma held_update:
  "i < length acts \<Longrightarrow>
   concat (map holds (acts[i := a])) =
     concat (map holds (take i acts)) @ holds a @ concat (map holds (drop (Suc i) acts))"
  by (simp add: upd_conv_take_nth_drop)

lemma held_split:
  "i < length acts \<Longrightarrow>
   concat (map holds acts) =
     concat (map holds (take i acts)) @ holds (acts ! i) @ concat (map holds (drop (Suc i) acts))"
  by (metis held_update list_update_id)

lemma held_dropAt:
  "i < length acts \<Longrightarrow>
   concat (map holds (dropAt i acts)) =
     concat (map holds (take i acts)) @ concat (map holds (drop (Suc i) acts))"
  by (simp add: dropAt_def)

lemma syncQueue_fields [simp]:
  "queue (syncQueue s) = queue s" "nextRef (syncQueue s) = nextRef s"
  "isOnline (syncQueue s) = isOnline s" "asyncStorage (syncQueue s) = asyncStorage s"
  by (simp_all add: syncQueue_def Let_def split: list.splits)

lemma syncQueue_heap:
  "heap (syncQueue s) q =
     (if isOnline s \<and> q \<in> set (queue s) \<and> q_status (heap s q) = Pending
      then (heap s q)\<lparr>q_status := Syncing\<rparr> else heap s q)"
proof (cases "filter (\<lambda>q. q_status (heap s q) = Pending) (queue s)")
  case Nil
  then have "\<not> (q \<in> set (queue s) \<and> q_status (heap s q) = Pending)"
    by (auto simp: filter_empty_conv)
  with Nil show ?thesis by (auto simp: syncQueue_def)
next
  case (Cons p rest)
  have "q \<in> set (p # rest) \<longleftrightarrow> q \<in> set (queue s) \<and> q_status (heap s q) = Pending"
    unfolding Cons [symmetric] by auto
  with Cons show ?thesis by (simp add: syncQueue_def markSyncing_apply)
qed

lemma syncQueue_held:
  "held (syncQueue s) =
     held s @ (if isOnline s then filter (\<lambda>q. q_status (heap s q) = Pending) (queue s) else [])"
  by (simp add: syncQueue_def Let_def held_def split: list.splits)

lemma syncQueue_noop:
  "\<not> isOnline s \<or> filter (\<lambda>q. q_status (heap s q) = Pending) (queue s) = [] \<Longrightarrow> syncQueue s = s"
  by (auto simp: syncQueue_def)

lemma consistent_syncing:
  "consistent q \<Longrightarrow> q_status q = Pending \<Longrightarrow> consistent (q\<lparr>q_status := Syncing\<rparr>)"
  by (simp add: consistent_def)

lemma wellFormed_syncQueue: "wellFormed s \<Longrightarrow> wellFormed (syncQueue s)"
  unfolding wellFormed_iff
  by (auto simp: syncQueue_held syncQueue_heap consistent_syncing)


lemma consistent_rejected:
  "consistent q \<Longrightarrow> q_status q = Syncing \<Longrightarrow> consistent (onSendRejected e q)"
  by (auto simp: consistent_def onSendRejected_def Let_def)

lemma resume_out_of_range: "length (activations s) \<le> i \<Longrightarrow> resume i outcome now s = s"
  by (simp add: resume_def)

lemma resume_send_held:
  assumes "i < length (activations s)" "activations s ! i = AwaitSend c rest"
  shows "held s = concat (map holds (take i (activations s))) @ (c # rest) @
                  concat (map holds (drop (Suc i) (activations s)))"
    and "held (resume i outcome now s) = concat (map holds (take i (activations s))) @ rest @
                  concat (map holds (drop (Suc i) (activations s)))"
proof -
  show "held s = concat (map holds (take i (activations s))) @ (c # rest) @
                  concat (map holds (drop (Suc i) (activations s)))"
    using held_split [OF assms(1)] assms(2) by (simp add: held_def)
  show "held (resume i outcome now s) = concat (map holds (take i (activations s))) @ rest @
                  concat (map holds (drop (Suc i) (activations s)))"
    using assms
    by (cases rest; cases outcome) (simp_all add: resume_def held_def held_update Let_def)
qed

lemma resume_send_fields:
  assumes "i < length (activations s)" "activations s ! i = AwaitSend c rest"
  shows "nextRef (resume i outcome now s) = nextRef s"
    and "heap (resume i outcome now s) =
           (case outcome of None \<Rightarrow> heap s | Some e \<Rightarrow> (heap s)(c := onSendRejected e (heap s c)))"
    and "queue (resume i outcome now s) =
           (case outcome of
              None \<Rightarrow> filter (\<lambda>q. q_id (heap s q) \<noteq> q_id (heap s c)) (queue s)
            | Some e \<Rightarrow> queue s)"
  using assms
  by (cases rest; cases outcome; simp add: resume_def Let_def)+

lemma wellFormed_resume_send:
  assumes wf: "wellFormed s" and i: "i < length (activations s)"
    and a: "activations s ! i = AwaitSend c rest"
  shows "wellFormed (resume i outcome now s)"
proof -
  let ?A = "concat (map holds (take i (activations s)))"
  let ?B = "concat (map holds (drop (Suc i) (activations s)))"
  have h: "held s = ?A @ (c # rest) @ ?B"
    and h': "held (resume i outcome now s) = ?A @ rest @ ?B"
    using resume_send_held [OF i a] by simp_all
  have c_held: "c \<in> set (held s)" using h by simp
  have c_not: "c \<notin> set (?A @ rest @ ?B)"
    using wf h by (auto simp: wellFormed_iff)
  have sub: "set (?A @ rest @ ?B) \<subseteq> set (held s)" using h by auto
  have d: "distinct (?A @ rest @ ?B)" using wf h by (auto simp: wellFormed_iff)
  show ?thesis
  proof (cases outcome)
    case None
    then show ?thesis
      using wf sub d unfolding wellFormed_iff h' resume_send_fields [OF i a]
      by (auto simp: subset_iff)
  next
    case (Some e)
    have cons: "consistent (onSendRejected e (heap s c))"
      using wf c_held by (auto simp: wellFormed_iff intro!: consistent_rejected)
    show ?thesis
      using wf sub d c_not cons Some unfolding wellFormed_iff h' resume_send_fields [OF i a]
      by (auto simp: subset_iff)
  qed
qed

lemma held_drop_idle:
  assumes "i < length (activations s)" "holds (activations s ! i) = []"
  shows "held (s\<lparr>activations := dropAt i (activations s)\<rparr>) = held s"
    and "held (s\<lparr>activations := (activations s)[i := AwaitQueueWrite b]\<rparr>) = held s"
  using assms held_split [OF assms(1)]
  by (simp_all add: held_def held_dropAt held_update)

lemma wellFormed_cong:
  "queue t = queue s \<Longrightarrow> held t = held s \<Longrightarrow> nextRef t = nextRef s \<Longrightarrow> heap t = heap s \<Longrightarrow>
   wellFormed t = wellFormed s"
  by (simp add: wellFormed_def)

lemma wellFormed_resume: "wellFormed s \<Longrightarrow> wellFormed (resume i outcome now s)"
proof (cases "i < length (activations s)")
  case False
  assume "wellFormed s"
  with False show ?thesis by (simp add: resume_out_of_range)
next
  case True
  assume wf: "wellFormed s"
  show ?thesis
  proof (cases "activations s ! i")
    case (AwaitSend c rest)
    then show ?thesis using wf True by (rule_tac wellFormed_resume_send)
  next
    case (AwaitStatusWrite t)
    then have idle: "holds (activations s ! i) = []" by simp
    show ?thesis
    proof (cases outcome)
      case None
      have "wellFormed (resume i outcome now s) = wellFormed s"
        using True AwaitStatusWrite None held_drop_idle(2) [OF True idle, of False]
        by (intro wellFormed_cong) (simp_all add: resume_def held_def)
      with wf show ?thesis by simp
    next
      case (Some e)
      have "wellFormed (resume i outcome now s) = wellFormed s"
        using True AwaitStatusWrite Some held_drop_idle(1) [OF True idle]
        by (intro wellFormed_cong) (simp_all add: resume_def held_def)
      with wf show ?thesis by simp
    qed
  next
    case (AwaitQueueWrite thenSync)
    then have idle: "holds (activations s ! i) = []" by simp
    let ?s1 = "s\<lparr>activations := dropAt i (activations s)\<rparr>"
    have "wellFormed ?s1 = wellFormed s"
      using held_drop_idle(1) [OF True idle] by (intro wellFormed_cong) simp_all
    with wf have wf1: "wellFormed ?s1" by simp
    have "resume i outcome now s = (if thenSync then syncQueue ?s1 else ?s1)"
      using True AwaitQueueWrite by (simp add: resume_def Let_def)
    with wf1 show ?thesis by (simp add: wellFormed_syncQueue)
  qed
qed

lemma wellFormed_queueMessage: "wellFormed s \<Longrightarrow> wellFormed (queueMessage sessionId message now s)"
  unfolding wellFormed_iff
  by (auto simp: queueMessage_def Let_def consistent_def less_Suc_eq held_def)

lemma wellFormed_retryFailed: "wellFormed s \<Longrightarrow> wellFormed (retryFailed s)"
  unfolding wellFormed_iff
  by (auto simp: retryFailed_def Let_def resetFailed_apply consistent_def held_def)

lemma wellFormed_clearQueue: "wellFormed s \<Longrightarrow> wellFormed (clearQueue s)"
  unfolding wellFormed_iff by (auto simp: clearQueue_def held_def)

lemma wellFormed_removeFromQueue: "wellFormed s \<Longrightarrow> wellFormed (removeFromQueue messageId s)"
  unfolding wellFormed_iff by (auto simp: removeFromQueue_def held_def)

lemma wellFormed_isOnline [simp]: "wellFormed (s\<lparr>isOnline := b\<rparr>) = wellFormed s"
  by (simp add: wellFormed_def held_def)

lemma wellFormed_step: "wellFormed s \<Longrightarrow> wellFormed (step e s)"
  by (cases e)
    (simp_all add: wellFormed_queueMessage wellFormed_syncQueue wellFormed_resume wellFormed_retryFailed
      wellFormed_clearQueue wellFormed_removeFromQueue netInfoListener_def setOfflineMode_def
      periodicSync_def Let_def)

lemma wellFormed_run: "wellFormed s \<Longrightarrow> wellFormed (run es s)"
  by (induction es arbitrary: s) (simp_all add: wellFormed_step)

lemma wellFormed_initial: "wellFormed (initialService st)"
  by (simp add: wellFormed_def initialService_def held_def)

subsection \<open>Counting failures\<close>

lemma nextRef_step: "nextRef s \<le> nextRef (step e s)"
proof (cases e)
  case (Resume i outcome now)
  show ?thesis
  proof (cases "i < length (activations s)")
    case True
    show ?thesis
    proof (cases "activations s ! i")
      case (AwaitSend c rest)
      then show ?thesis using Resume by (simp add: resume_send_fields(1) [OF True AwaitSend])
    next
      case (AwaitStatusWrite t)
      then show ?thesis using Resume True by (cases outcome) (simp_all add: resume_def)
    next
      case (AwaitQueueWrite thenSync)
      then show ?thesis using Resume True by (simp add: resume_def Let_def)
    qed
  next
    case False
    then show ?thesis using Resume by (simp add: resume_out_of_range)
  qed
qed (simp_all add: queueMessage_def retryFailed_def clearQueue_def removeFromQueue_def
      netInfoListener_def setOfflineMode_def periodicSync_def Let_def)

lemma retryCount_syncQueue [simp]: "q_retryCount (heap (syncQueue s) q) = q_retryCount (heap s q)"
  by (simp add: syncQueue_heap)

lemma retryCount_resume:
  "q_retryCount (heap (resume i outcome now s) q) =
     (if rejectedOn q (Resume i outcome now) s then q_retryCount (heap s q) + 1
      else q_retryCount (heap s q))"
proof (cases "i < length (activations s)")
  case False
  then show ?thesis by (cases outcome) (simp_all add: resume_out_of_range rejectedOn_def)
next
  case True
  show ?thesis
  proof (cases "activations s ! i")
    case (AwaitSend c rest)
    then show ?thesis using True
      by (cases outcome)
        (simp_all add: resume_send_fields [OF True AwaitSend] rejectedOn_def onSendRejected_def Let_def)
  next
    case (AwaitStatusWrite t)
    then show ?thesis using True
      by (cases outcome) (simp_all add: resume_def rejectedOn_def)
  next
    case (AwaitQueueWrite thenSync)
    then show ?thesis using True
      by (cases outcome) (simp_all add: resume_def rejectedOn_def Let_def)
  qed
qed

lemma retryCount_step:
  assumes "q < nextRef s"
  shows "q_retryCount (heap (step e s) q) =
           (if rejectedOn q e s then q_retryCount (heap s q) + 1
            else if retriedOn q e s then 0 else q_retryCount (heap s q))"
proof (cases e)
  case (Resume i outcome now)
  then show ?thesis by (simp add: retryCount_resume retriedOn_def)
next
  case (QueueMessage sessionId message now)
  then show ?thesis using assms
    by (simp add: queueMessage_def Let_def rejectedOn_def retriedOn_def)
next
  case RetryFailed
  then show ?thesis
    by (simp add: retryFailed_def Let_def resetFailed_apply rejectedOn_def retriedOn_def)
qed (simp_all add: rejectedOn_def retriedOn_def clearQueue_def removeFromQueue_def
      netInfoListener_def setOfflineMode_def periodicSync_def Let_def)

lemma retryCount_run:
  "q < nextRef s \<Longrightarrow>
   q_retryCount (heap (run es s) q) = failures q es s (q_retryCount (heap s q))"
proof (induction es arbitrary: s)
  case Nil
  then show ?case by simp
next
  case (Cons e es)
  have "q < nextRef (step e s)" using Cons.prems nextRef_step [of s e] by linarith
  then have "q_retryCount (heap (run es (step e s)) q) =
      failures q es (step e s) (q_retryCount (heap (step e s) q))"
    by (rule Cons.IH)
  then show ?case using Cons.prems by (simp add: retryCount_step)
qed

lemma nextRef_run: "nextRef s \<le> nextRef (run es s)"
proof (induction es arbitrary: s)
  case Nil
  then show ?case by simp
next
  case (Cons e es)
  then show ?case using nextRef_step [of s e] le_trans by fastforce
qed

lemma delivered_removed:
  assumes "deliveredOn q e s"
  shows "q \<notin> set (queue (step e s))"
proof -
  from assms obtain i now where e: "e = Resume i None now"
    by (cases e) (auto simp: deliveredOn_def split: option.splits)
  with assms have i: "i < length (activations s)" by (simp add: deliveredOn_def)
  from assms e obtain rest where a: "activations s ! i = AwaitSend q rest"
    by (cases "activations s ! i") (auto simp: deliveredOn_def)
  show ?thesis using e by (simp add: resume_send_fields [OF i a])
qed

subsection \<open>Concrete runs\<close>

lemmas queue_eval =
  queueMessage_def resume_def syncQueue_def markSyncing_def periodicSync_def
  initialService_def workingStorage_def Let_def dropAt_def onSendRejected_def errorMessage_def
  oneQueued_def hello_def bye_def networkError_def

lemma oneInFlight_activations:
  "activations oneInFlight = [AwaitSend 0 [], AwaitQueueWrite True]"
  by (simp add: oneInFlight_def queue_eval)

lemma oneInFlight_sync:
  "activations (syncQueue oneInFlight) = [AwaitSend 0 [], AwaitQueueWrite True, AwaitSend 1 []]"
  by (simp add: oneInFlight_def queue_eval)

lemma wellFormed_oneQueued: "wellFormed oneQueued"
  unfolding oneQueued_def by (intro wellFormed_queueMessage wellFormed_initial)

lemma wellFormed_oneInFlight: "wellFormed oneInFlight"
  unfolding oneInFlight_def by (intro wellFormed_run wellFormed_oneQueued)

lemma failures_twice: "failures 0 twiceRejected oneQueued 0 = 2"
  by (simp add: twiceRejected_def rejectedOn_def retriedOn_def queue_eval)

lemma activations_twice: "activations (run twiceRejected oneQueued) = [AwaitStatusWrite 3, AwaitStatusWrite 4, AwaitSend 0 []]"
  by (simp add: twiceRejected_def queue_eval)

lemma failures_thrice:
  "failures 0 (twiceRejected @ [Resume 2 (Some networkError) 5]) oneQueued 0 = 3"
  by (simp add: twiceRejected_def rejectedOn_def retriedOn_def queue_eval)

subsection \<open>\<open>syncQueue\<close>: overlapping passes\<close>

lemma sending_subset: "set (concat (map sending acts)) \<subseteq> set (concat (map holds acts))"
proof (induction acts)
  case Nil
  then show ?case by simp
next
  case (Cons a acts)
  then show ?case by (cases a) auto
qed

lemma distinct_sending:
  "distinct (concat (map holds acts)) \<Longrightarrow> distinct (concat (map sending acts))"
proof (induction acts)
  case Nil
  then show ?case by simp
next
  case (Cons a acts)
  then show ?case using sending_subset [of acts] by (cases a) auto
qed

lemma distinct_inFlight: "wellFormed s \<Longrightarrow> distinct (inFlight s)"
  by (simp add: wellFormed_iff held_def inFlight_def distinct_sending)

lemma held_not_pending: "wellFormed s \<Longrightarrow> list_all (\<lambda>q. q_status (heap s q) \<noteq> Pending) (held s)"
  by (auto simp: wellFormed_iff list_all_iff)

text \<open>
  C1, amended. \<open>syncQueue\<close> changes nothing when the service is offline or no queued message
  is \<open>Pending\<close>. There is no flag for a pass in flight: called while a pass is suspended, it
  starts a second pass, over exactly the messages that are \<open>Pending\<close> at that moment. The
  messages a suspended pass holds (the one being sent and those still to send) are
  \<open>Syncing\<close>, never \<open>Pending\<close>, so no call takes them again: from a well-formed state, after
  \<open>syncQueue\<close> and after any run of events, no message is held twice, by two passes or by
  one, and no message is being sent twice at the same time.
\<close>

theorem syncQueue_takes_pending_only:
  assumes "wellFormed s"
  shows "(\<not> isOnline s \<or> filter (\<lambda>q. q_status (heap s q) = Pending) (queue s) = [] \<longrightarrow> syncQueue s = s) \<and>
         held (syncQueue s) =
           held s @ (if isOnline s then filter (\<lambda>q. q_status (heap s q) = Pending) (queue s) else []) \<and>
         list_all (\<lambda>q. q_status (heap s q) \<noteq> Pending) (held s) \<and>
         distinct (held (syncQueue s)) \<and>
         distinct (held (run es s)) \<and>
         distinct (inFlight (run es s))"
proof -
  have "wellFormed (syncQueue s)" using assms by (rule wellFormed_syncQueue)
  then have a: "distinct (held (syncQueue s))" by (simp add: wellFormed_iff)
  have wf: "wellFormed (run es s)" using assms by (rule wellFormed_run)
  then have b: "distinct (held (run es s))" by (simp add: wellFormed_iff)
  have c: "distinct (inFlight (run es s))" using wf by (rule distinct_inFlight)
  show ?thesis using a b c held_not_pending [OF assms] syncQueue_noop [of s]
    by (simp add: syncQueue_held)
qed

text \<open>
  The theorem at \<open>oneInFlight\<close>: the pass in flight holds message 0, the call takes message
  1 only; and at the same state taken offline, where the call changes nothing.
\<close>

theorem syncQueue_takes_pending_only_witness:
  "wellFormed oneInFlight \<and> isOnline oneInFlight \<and>
   held oneInFlight = [0] \<and>
   filter (\<lambda>q. q_status (heap oneInFlight q) = Pending) (queue oneInFlight) = [1] \<and>
   held (syncQueue oneInFlight) = [0, 1] \<and>
   distinct (held (syncQueue oneInFlight)) \<and>
   distinct (held (run [SyncQueue, Resume 0 None 4, Timer] oneInFlight)) \<and>
   distinct (inFlight (run [SyncQueue, Resume 0 None 4, Timer] oneInFlight)) \<and>
   \<not> isOnline (setOfflineMode True oneInFlight) \<and> wellFormed (setOfflineMode True oneInFlight) \<and>
   syncQueue (setOfflineMode True oneInFlight) = setOfflineMode True oneInFlight"
proof -
  have a: "wellFormed oneInFlight" by (rule wellFormed_oneInFlight)
  have b: "isOnline oneInFlight" by (simp add: oneInFlight_def queue_eval)
  have c: "held oneInFlight = [0]" by (simp add: held_def oneInFlight_activations)
  have d: "filter (\<lambda>q. q_status (heap oneInFlight q) = Pending) (queue oneInFlight) = [1]"
    by (simp add: oneInFlight_def queue_eval)
  have e: "\<not> isOnline (setOfflineMode True oneInFlight)"
    by (simp add: setOfflineMode_def)
  have f: "wellFormed (setOfflineMode True oneInFlight)"
    using a by (simp add: setOfflineMode_def)
  show ?thesis
    using syncQueue_takes_pending_only [OF a, of "[SyncQueue, Resume 0 None 4, Timer]"]
      syncQueue_takes_pending_only [OF f, of "[]"] a b c d e f
    by simp
qed

text \<open>
  C1, as stated, says that \<open>syncQueue\<close> is a no-op while a pass is in flight, so that at most
  one pass runs at a time. In \<open>oneInFlight\<close> one pass is suspended in \<open>sendMessage\<close>; the call
  changes the state and leaves two passes suspended.
\<close>

theorem second_pass_counterexample:
  "isOnline oneInFlight \<and> passes oneInFlight = 1 \<and>
   syncQueue oneInFlight \<noteq> oneInFlight \<and> passes (syncQueue oneInFlight) = 2"
proof -
  have "isOnline oneInFlight" by (simp add: oneInFlight_def queue_eval)
  moreover have "passes oneInFlight = 1" by (simp add: passes_def oneInFlight_activations)
  moreover have "passes (syncQueue oneInFlight) = 2" by (simp add: passes_def oneInFlight_sync)
  moreover have "syncQueue oneInFlight \<noteq> oneInFlight"
    using oneInFlight_activations oneInFlight_sync by auto
  ultimately show ?thesis by simp
qed

subsection \<open>\<open>retryCount\<close> and \<open>Failed\<close>\<close>

text \<open>
  C2. For a message \<open>q\<close> of a well-formed state and any run of events from it:
  \<open>retryCount\<close> is the number of rejected deliveries of \<open>q\<close>, counted up by one at each
  rejection and started again at \<open>0\<close> only by the user's retry of the failed \<open>q\<close>; \<open>q\<close> is
  \<open>Failed\<close> exactly when that number is \<open>3\<close>, and the number never exceeds \<open>3\<close>. Step by
  step: a rejected delivery of \<open>q\<close> adds one to \<open>retryCount\<close> and leaves \<open>q\<close> \<open>Failed\<close> exactly
  when it is the third; no event but the user's retry of \<open>q\<close> makes \<open>retryCount\<close> smaller;
  a fulfilled delivery of \<open>q\<close> removes it from the queue. A
  message starts, in \<open>queueMessage\<close>, \<open>Pending\<close> with count \<open>0\<close>. Hence a message rejected
  twice and then delivered leaves the queue without having been \<open>Failed\<close>, and one rejected
  three times is \<open>Failed\<close>.
\<close>

theorem retryCount_counts_failures:
  assumes "wellFormed s" "q < nextRef s"
  shows "q_retryCount (heap (run es s) q) = failures q es s (q_retryCount (heap s q)) \<and>
         (q_status (heap (run es s) q) = Failed \<longleftrightarrow> failures q es s (q_retryCount (heap s q)) = 3) \<and>
         failures q es s (q_retryCount (heap s q)) \<le> 3 \<and>
         (rejectedOn q e (run es s) \<longrightarrow>
            q_retryCount (heap (step e (run es s)) q) = q_retryCount (heap (run es s) q) + 1 \<and>
            (q_status (heap (step e (run es s)) q) = Failed \<longleftrightarrow> q_retryCount (heap (run es s) q) = 2)) \<and>
         (\<not> retriedOn q e (run es s) \<longrightarrow>
            q_retryCount (heap (run es s) q) \<le> q_retryCount (heap (step e (run es s)) q)) \<and>
         (deliveredOn q e (run es s) \<longrightarrow> q \<notin> set (queue (step e (run es s)))) \<and>
         q_retryCount (heap (queueMessage sessionId message now s) (nextRef s)) = 0 \<and>
         q_status (heap (queueMessage sessionId message now s) (nextRef s)) = Pending"
proof -
  let ?s = "run es s"
  have count: "q_retryCount (heap ?s q) = failures q es s (q_retryCount (heap s q))"
    using assms(2) by (rule retryCount_run)
  have wf: "wellFormed ?s" using assms(1) by (rule wellFormed_run)
  have q: "q < nextRef ?s" using assms(2) nextRef_run [of s es] by linarith
  have "consistent (heap ?s q)" using wf q by (simp add: wellFormed_iff)
  then have st: "(q_status (heap ?s q) = Failed \<longleftrightarrow> q_retryCount (heap ?s q) = 3) \<and>
      q_retryCount (heap ?s q) \<le> 3"
    by (auto simp: consistent_def split: if_splits)
  have wf': "wellFormed (step e ?s)" using wf by (rule wellFormed_step)
  have "q < nextRef (step e ?s)" using q nextRef_step [of ?s e] by linarith
  then have "consistent (heap (step e ?s) q)" using wf' by (simp add: wellFormed_iff)
  then have st': "q_status (heap (step e ?s) q) = Failed \<longleftrightarrow> q_retryCount (heap (step e ?s) q) = 3"
    by (auto simp: consistent_def split: if_splits)
  note after = retryCount_step [OF q, of e]
  have rej: "rejectedOn q e ?s \<longrightarrow>
      q_retryCount (heap (step e ?s) q) = q_retryCount (heap ?s q) + 1 \<and>
      (q_status (heap (step e ?s) q) = Failed \<longleftrightarrow> q_retryCount (heap ?s q) = 2)"
    using after st' by auto
  have mono: "\<not> retriedOn q e ?s \<longrightarrow> q_retryCount (heap ?s q) \<le> q_retryCount (heap (step e ?s) q)"
    using after by simp
  have fresh: "q_retryCount (heap (queueMessage sessionId message now s) (nextRef s)) = 0 \<and>
      q_status (heap (queueMessage sessionId message now s) (nextRef s)) = Pending"
    by (simp add: queueMessage_def Let_def)
  show ?thesis using count st rej mono fresh delivered_removed [of q e ?s]
    by (simp only: simp_thms) blast
qed

text \<open>
  The theorem on the run \<open>twiceRejected\<close> of \<open>oneQueued\<close>: after two rejections the count
  is \<open>2\<close> and the message is not \<open>Failed\<close>; a fulfilled third delivery removes it from the
  queue, a rejected third delivery makes it \<open>Failed\<close> with count \<open>3\<close>.
\<close>

theorem retryCount_counts_failures_witness:
  "wellFormed oneQueued \<and> 0 < nextRef oneQueued \<and> q_retryCount (heap oneQueued 0) = 0 \<and>
   failures 0 twiceRejected oneQueued 0 = 2 \<and>
   q_retryCount (heap (run twiceRejected oneQueued) 0) = 2 \<and>
   q_status (heap (run twiceRejected oneQueued) 0) \<noteq> Failed \<and>
   deliveredOn 0 (Resume 2 None 5) (run twiceRejected oneQueued) \<and>
   0 \<notin> set (queue (step (Resume 2 None 5) (run twiceRejected oneQueued))) \<and>
   failures 0 (twiceRejected @ [Resume 2 (Some networkError) 5]) oneQueued 0 = 3 \<and>
   q_retryCount (heap (run (twiceRejected @ [Resume 2 (Some networkError) 5]) oneQueued) 0) = 3 \<and>
   q_status (heap (run (twiceRejected @ [Resume 2 (Some networkError) 5]) oneQueued) 0) = Failed"
proof -
  have a: "wellFormed oneQueued" by (rule wellFormed_oneQueued)
  have b: "0 < nextRef oneQueued" by (simp add: queue_eval)
  have c: "q_retryCount (heap oneQueued 0) = 0" by (simp add: queue_eval)
  have d: "deliveredOn 0 (Resume 2 None 5) (run twiceRejected oneQueued)"
    by (simp add: deliveredOn_def activations_twice)
  show ?thesis
    using retryCount_counts_failures [OF a b, of twiceRejected "Resume 2 None 5"]
      retryCount_counts_failures [OF a b, of "twiceRejected @ [Resume 2 (Some networkError) 5]"]
      a b c d failures_twice failures_thrice
    by simp
qed

subsection \<open>\<open>getSyncStatus\<close>\<close>




end
